theory Spec2Isabelle
  imports
    Main
    "HOL-Library.Multiset"
    "HOL-Library.Sublist"
    "HOL-Library.Char_ord"
    "HOL-Library.List_Lexorder"
begin

section \<open>Memorial wall backend: a bounded photo catalog with live updates\<close>

text \<open>
  The repository holds two variants of one Express server: \<^verbatim>\<open>src/server.js\<close> keeps the
  photo metadata in Postgres, \<^verbatim>\<open>src/unnamed/part_000\<close> keeps it in SQLite. Both store the
  images in Cloudinary and push live updates over server-sent events. The definitions
  below follow \<^verbatim>\<open>server.js\<close> under the source's names; the definitions of the SQLite
  variant carry the suffix \<open>_sqlite\<close>.

  What lies outside the two files is modelled as follows.
  \<^item> The SQL engines. A query \<^verbatim>\<open>ORDER BY k DESC\<close> returns the rows of the table in some
    order in which \<open>k\<close> never increases; SQL leaves the order of rows with equal \<open>k\<close> to
    the engine, and it may differ from one execution to the next. So every operation that
    runs such a query takes an argument \<open>scan\<close>, the rows of the table in the order in
    which the engine happens to meet them in that execution, and the query sorts \<open>scan\<close>
    by its key with a stable sort (\<open>order_by_desc\<close>): \<open>scan\<close> decides the order of rows
    with equal keys and nothing else, and every order that SQL allows comes from some
    \<open>scan\<close> (lemma \<open>order_by_desc_any\<close>).
    \<^verbatim>\<open>LIMIT\<close> and \<^verbatim>\<open>OFFSET\<close> follow the manuals of the two engines: Postgres rejects a
    negative value, SQLite reads a negative \<^verbatim>\<open>LIMIT\<close> as no limit and a negative
    \<^verbatim>\<open>OFFSET\<close> as zero; a value that is no 64-bit integer is an error in both. SQLite
    takes at most 32766 bound variables in one statement.
    The database is taken to be reachable: a statement fails only for a reason that
    shows in its arguments.
  \<^item> Cloudinary. An upload either fails or returns a public id and a URL; a
    \<^verbatim>\<open>destroy\<close> either rejects or removes the object. Which calls reject is an
    argument \<open>fails\<close> of the operations that call \<^verbatim>\<open>destroy\<close>.
  \<^item> Time stamps are milliseconds since the epoch, the precision of
    \<^verbatim>\<open>new Date().toISOString()\<close>.
  \<^item> An enforcement run is taken as one step: its query, its \<^verbatim>\<open>destroy\<close> calls and its
    \<^verbatim>\<open>DELETE\<close> happen with nothing in between. This is the sequential case; runs that
    overlap are not modelled.
\<close>

subsection \<open>JavaScript values\<close>

text \<open>
  A JavaScript string is a list of UTF-16 code units; \<open>ascii\<close> gives the code units of a
  string of ASCII characters.
\<close>

definition ascii :: "string \<Rightarrow> nat list" where
  "ascii s = map of_char s"

text \<open>
  A number that \<^verbatim>\<open>parseInt\<close> returns is \<^verbatim>\<open>NaN\<close>, an integer that is a double, or an
  infinity. \<open>Num v\<close> is the double of value \<open>v\<close>; an infinity is \<open>Num v\<close> with \<open>v\<close> beyond
  every double, which \<^verbatim>\<open>Math.min\<close> and the two database drivers treat as they treat the
  infinity.
\<close>

datatype js_num = NaN | Num int

text \<open>\<^verbatim>\<open>Math.min(a, b)\<close>: \<^verbatim>\<open>NaN\<close> if either argument is.\<close>

fun Math_min :: "js_num \<Rightarrow> js_num \<Rightarrow> js_num" where
  "Math_min NaN _ = NaN"
| "Math_min _ NaN = NaN"
| "Math_min (Num a) (Num b) = Num (min a b)"

text \<open>
  \<^verbatim>\<open>x || d\<close> for a value \<open>x\<close> that is \<^verbatim>\<open>undefined\<close> or a string: the empty string is
  falsy as well.
\<close>

definition or_default :: "'a list option \<Rightarrow> 'a list \<Rightarrow> 'a list" where
  "or_default x d = (case x of None \<Rightarrow> d | Some s \<Rightarrow> if s = [] then d else s)"

text \<open>
  The white space that \<^verbatim>\<open>parseInt\<close> skips: the code points \<^verbatim>\<open>WhiteSpace\<close> and
  \<^verbatim>\<open>LineTerminator\<close> of ECMAScript, each one code unit.
\<close>

definition is_space :: "nat \<Rightarrow> bool" where
  "is_space u \<longleftrightarrow>
     u \<in> set [0x09, 0x0A, 0x0B, 0x0C, 0x0D, 0x20, 0xA0, 0x1680, 0x2028, 0x2029, 0x202F,
              0x205F, 0x3000, 0xFEFF] \<or>
     (0x2000 \<le> u \<and> u \<le> 0x200A)"

definition is_digit :: "nat \<Rightarrow> bool" where
  "is_digit u \<longleftrightarrow> 0x30 \<le> u \<and> u \<le> 0x39"

definition digit_val :: "nat \<Rightarrow> nat" where
  "digit_val u = u - 0x30"

text \<open>The value of a string of decimal digits, most significant digit first.\<close>

fun dec :: "nat \<Rightarrow> nat list \<Rightarrow> nat" where
  "dec acc [] = acc"
| "dec acc (c # cs) = dec (10 * acc + digit_val c) cs"

text \<open>
  The double nearest to an integer: 53 significant bits, ties to the even one. \<open>excess a\<close>
  is the number of bits of \<open>a\<close> beyond 53.
\<close>

function excess :: "nat \<Rightarrow> nat" where
  "excess a = (if a < 2 ^ 53 then 0 else Suc (excess (a div 2)))"
  by pat_completeness auto
termination
  by (relation "measure (\<lambda>a. a)") auto

declare excess.simps [simp del]

definition round_double :: "int \<Rightarrow> int" where
  "round_double n =
     (let a = nat \<bar>n\<bar>; e = excess a
      in if e = 0 then n
         else
           let q = a div 2 ^ e; r = a mod 2 ^ e; h = 2 ^ (e - 1);
               q' = (if h < r \<or> (r = h \<and> odd q) then q + 1 else q)
           in sgn n * int (q' * 2 ^ e))"

text \<open>
  \<^verbatim>\<open>parseInt(s, 10)\<close>: skip leading white space, read an optional sign, then the longest
  run of decimal digits; \<^verbatim>\<open>NaN\<close> when that run is empty. What follows the digits is
  ignored. The result is the double nearest to the number read.
\<close>

definition parseInt :: "nat list \<Rightarrow> js_num" where
  "parseInt s =
     (let t = dropWhile is_space s;
          neg = (t \<noteq> [] \<and> hd t = 0x2D);
          u = (if t \<noteq> [] \<and> (hd t = 0x2D \<or> hd t = 0x2B) then tl t else t);
          ds = takeWhile is_digit u
      in if ds = [] then NaN
         else Num (round_double (if neg then - int (dec 0 ds) else int (dec 0 ds))))"

subsection \<open>Settings\<close>

text \<open>
  \<^verbatim>\<open>const ADMIN_KEY = process.env.ADMIN_KEY || "12345";\<close>
  \<^verbatim>\<open>const MAX_PHOTOS = parseInt(process.env.MAX_PHOTOS || "10000", 10);\<close>
  The argument is the environment variable, \<open>None\<close> when it is unset.
\<close>

definition ADMIN_KEY :: "string option \<Rightarrow> string" where
  "ADMIN_KEY env = or_default env ''12345''"

definition MAX_PHOTOS :: "nat list option \<Rightarrow> js_num" where
  "MAX_PHOTOS env = parseInt (or_default env (ascii ''10000''))"

subsection \<open>Data\<close>

text \<open>
  A row of the table \<^verbatim>\<open>photos\<close>. The SQLite variant names the columns
  \<^verbatim>\<open>publicId\<close>, \<^verbatim>\<open>thumbnailUrl\<close> and \<^verbatim>\<open>createdAt\<close>.
\<close>

record photo =
  photo_id :: string
  public_id :: string
  url :: string
  thumbnail_url :: string
  created_at :: int

text \<open>The object \<^verbatim>\<open>{ id, url, thumbnailUrl, createdAt }\<close> of the responses and events.\<close>

record photo_json =
  json_id :: string
  json_url :: string
  json_thumbnailUrl :: string
  json_createdAt :: int

definition to_json :: "photo \<Rightarrow> photo_json" where
  "to_json r = \<lparr>json_id = photo_id r, json_url = url r,
                json_thumbnailUrl = thumbnail_url r, json_createdAt = created_at r\<rparr>"

text \<open>The payloads written to the event streams.\<close>

datatype event = Hello | Photo_uploaded photo_json | Photo_deleted string

datatype db_error =
    Invalid_syntax | Out_of_range | Negative_limit | Negative_offset | Duplicate_key
  | Datatype_mismatch | Too_many_variables

datatype failure = Db db_error | Cloud string

datatype body =
    Photos "photo_json list"
  | Uploaded string photo_json
  | Deleted string string
  | Message string
  | Failed string failure

record response =
  status :: nat
  body :: body

text \<open>
  The state of the server and of the two stores: the table, the objects held by
  Cloudinary, the \<^verbatim>\<open>destroy\<close> calls issued so far, the set \<^verbatim>\<open>sseClients\<close> (a JavaScript
  \<^verbatim>\<open>Set\<close> iterates in insertion order) and every frame written to a response, oldest
  first. A response object is named by a number.
\<close>

record world =
  photos :: "photo list"
  blobs :: "string list"
  destroy_calls :: "string list"
  sseClients :: "nat list"
  written :: "(nat \<times> event) list"

definition received :: "nat \<Rightarrow> world \<Rightarrow> event list" where
  "received h w = map snd (filter (\<lambda>x. fst x = h) (written w))"

subsection \<open>The SQL engines\<close>

text \<open>The sort keys: \<^verbatim>\<open>created_at\<close> in Postgres, \<^verbatim>\<open>datetime(createdAt)\<close> in SQLite, which
  drops the fraction of the second.\<close>

definition datetime :: "int \<Rightarrow> int" where
  "datetime ms = ms div 1000"

definition sqlite_key :: "photo \<Rightarrow> int" where
  "sqlite_key r = datetime (created_at r)"

text \<open>
  \<^verbatim>\<open>ORDER BY key DESC\<close> over the rows as the engine meets them: a stable sort, greatest
  key first.
\<close>

definition order_by_desc :: "(photo \<Rightarrow> int) \<Rightarrow> photo list \<Rightarrow> photo list" where
  "order_by_desc key scan = sort_key (\<lambda>r. - key r) scan"

definition bigint_max :: int where
  "bigint_max = 9223372036854775807"

text \<open>
  A number as a parameter \<^verbatim>\<open>$1\<close> of type \<^verbatim>\<open>bigint\<close> in Postgres. The driver sends the text
  \<^verbatim>\<open>val.toString()\<close>: \<^verbatim>\<open>NaN\<close>, an infinity and the exponent notation from \<open>10^21\<close> on
  are no integer literals; from \<open>2^63\<close> on the value is out of range. \<open>nonneg\<close> is the
  error of a negative value. Between \<open>2^53\<close> and \<open>2^63\<close> the text is the shortest decimal
  that reads back as the same double, and may differ from the double by less than the
  distance to the next one; the model takes the double, which makes no difference to a
  table of fewer than \<open>2^53\<close> rows.
\<close>

definition pg_count :: "db_error \<Rightarrow> js_num \<Rightarrow> db_error + nat" where
  "pg_count nonneg n =
     (case n of
        NaN \<Rightarrow> Inl Invalid_syntax
      | Num v \<Rightarrow>
          if 1000000000000000000000 \<le> \<bar>v\<bar> then Inl Invalid_syntax
          else if bigint_max < \<bar>v\<bar> then Inl Out_of_range
          else if v < 0 then Inl nonneg
          else Inr (nat v))"

definition pg_limit :: "js_num \<Rightarrow> 'a list \<Rightarrow> db_error + 'a list" where
  "pg_limit n xs =
     (case pg_count Negative_limit n of Inl e \<Rightarrow> Inl e | Inr k \<Rightarrow> Inr (take k xs))"

definition pg_offset :: "js_num \<Rightarrow> 'a list \<Rightarrow> db_error + 'a list" where
  "pg_offset n xs =
     (case pg_count Negative_offset n of Inl e \<Rightarrow> Inl e | Inr k \<Rightarrow> Inr (drop k xs))"

text \<open>
  A number bound to a \<^verbatim>\<open>?\<close> of \<^verbatim>\<open>LIMIT\<close> or \<^verbatim>\<open>OFFSET\<close> in SQLite: the driver binds an
  integer or a double, and SQLite wants a value that it can turn into a 64-bit integer,
  which it does for a double that is an integer strictly between \<open>-2^63\<close> and
  \<open>2^63 - 1\<close>; \<^verbatim>\<open>NaN\<close> is bound as \<^verbatim>\<open>NULL\<close>, which is none.
\<close>

definition sqlite_integer :: "js_num \<Rightarrow> db_error + int" where
  "sqlite_integer n =
     (case n of
        NaN \<Rightarrow> Inl Datatype_mismatch
      | Num v \<Rightarrow>
          if v \<le> - bigint_max - 1 \<or> bigint_max \<le> v then Inl Datatype_mismatch
          else Inr v)"

definition sqlite_limit :: "js_num \<Rightarrow> 'a list \<Rightarrow> db_error + 'a list" where
  "sqlite_limit n xs =
     (case sqlite_integer n of
        Inl e \<Rightarrow> Inl e
      | Inr v \<Rightarrow> if v < 0 then Inr xs else Inr (take (nat v) xs))"

definition sqlite_offset :: "js_num \<Rightarrow> 'a list \<Rightarrow> db_error + 'a list" where
  "sqlite_offset n xs =
     (case sqlite_integer n of
        Inl e \<Rightarrow> Inl e
      | Inr v \<Rightarrow> if v < 0 then Inr xs else Inr (drop (nat v) xs))"

text \<open>\<^verbatim>\<open>SQLITE_MAX_VARIABLE_NUMBER\<close>, the most \<^verbatim>\<open>?\<close> that one statement may hold.\<close>

definition sqlite_max_variables :: nat where
  "sqlite_max_variables = 32766"

text \<open>\<^verbatim>\<open>INSERT INTO photos ...\<close>: the column \<^verbatim>\<open>id\<close> is the primary key.\<close>

definition insert_photo :: "photo \<Rightarrow> photo list \<Rightarrow> db_error + photo list" where
  "insert_photo r rows =
     (if photo_id r \<in> set (map photo_id rows) then Inl Duplicate_key else Inr (rows @ [r]))"

subsection \<open>Cloudinary\<close>

datatype settled = Resolved | Rejected

text \<open>
  \<^verbatim>\<open>cloudinary.uploader.destroy(pid)\<close>: the call is issued in every case; the object is
  gone afterwards unless the call rejects.
\<close>

definition destroy :: "(string \<Rightarrow> bool) \<Rightarrow> string \<Rightarrow> world \<Rightarrow> settled \<times> world" where
  "destroy fails pid w =
     (let w' = w\<lparr>destroy_calls := destroy_calls w @ [pid]\<rparr>
      in if fails pid then (Rejected, w')
         else (Resolved, w'\<lparr>blobs := removeAll pid (blobs w')\<rparr>))"

text \<open>
  \<^verbatim>\<open>try { await cloudinary.uploader.destroy(pid); } catch {}\<close> in \<^verbatim>\<open>server.js\<close>,
  \<^verbatim>\<open>cloudinary.uploader.destroy(pid).catch(() => {})\<close> in the SQLite variant.
\<close>

definition destroy_catch :: "(string \<Rightarrow> bool) \<Rightarrow> string \<Rightarrow> world \<Rightarrow> world" where
  "destroy_catch fails pid w =
     (case destroy fails pid w of (Rejected, w') \<Rightarrow> w' | (Resolved, w') \<Rightarrow> w')"

subsection \<open>Server-sent events\<close>

text \<open>\<^verbatim>\<open>for (const res of sseClients) res.write(payload);\<close>\<close>

definition sseSend :: "event \<Rightarrow> world \<Rightarrow> world" where
  "sseSend ev w = w\<lparr>written := written w @ map (\<lambda>res. (res, ev)) (sseClients w)\<rparr>"

text \<open>\<^verbatim>\<open>GET /events\<close> on the response \<open>res\<close>: \<^verbatim>\<open>sseClients.add(res)\<close>, then the hello frame.\<close>

definition GET_events :: "nat \<Rightarrow> world \<Rightarrow> world" where
  "GET_events res w =
     (let w1 = w\<lparr>sseClients :=
                   (if res \<in> set (sseClients w) then sseClients w else sseClients w @ [res])\<rparr>
      in w1\<lparr>written := written w1 @ [(res, Hello)]\<rparr>)"

text \<open>The handler of \<^verbatim>\<open>close\<close>: \<^verbatim>\<open>sseClients.delete(res)\<close>.\<close>

definition on_close :: "nat \<Rightarrow> world \<Rightarrow> world" where
  "on_close res w = w\<lparr>sseClients := removeAll res (sseClients w)\<rparr>"

text \<open>What happens on the event channel, one step at a time.\<close>

datatype sse_op = Publish event | Connect nat | Close nat

fun sse_step :: "sse_op \<Rightarrow> world \<Rightarrow> world" where
  "sse_step (Publish ev) w = sseSend ev w"
| "sse_step (Connect res) w = GET_events res w"
| "sse_step (Close res) w = on_close res w"

definition sse_run :: "sse_op list \<Rightarrow> world \<Rightarrow> world" where
  "sse_run ops w = fold sse_step ops w"

fun published :: "sse_op list \<Rightarrow> event list" where
  "published [] = []"
| "published (Publish ev # ops) = ev # published ops"
| "published (_ # ops) = published ops"

subsection \<open>Capacity enforcement\<close>

text \<open>
  \<^verbatim>\<open>enforceMaxPhotos\<close> of \<^verbatim>\<open>server.js\<close>. \<open>select_extra\<close> is its query,
  \<^verbatim>\<open>ORDER BY created_at DESC OFFSET $1\<close>. A failing query rejects the promise (\<open>Inl\<close>).
\<close>

definition select_extra :: "js_num \<Rightarrow> photo list \<Rightarrow> db_error + photo list" where
  "select_extra max_photos scan = pg_offset max_photos (order_by_desc created_at scan)"

definition enforceMaxPhotos ::
  "js_num \<Rightarrow> (string \<Rightarrow> bool) \<Rightarrow> photo list \<Rightarrow> world \<Rightarrow> db_error + world" where
  "enforceMaxPhotos max_photos fails scan w =
     (case select_extra max_photos scan of
        Inl e \<Rightarrow> Inl e
      | Inr extra \<Rightarrow>
          if extra = [] then Inr w
          else
            let ids = map photo_id extra;
                publicIds = map public_id extra;
                w1 = fold (destroy_catch fails) publicIds w
            in Inr (w1\<lparr>photos := filter (\<lambda>r. photo_id r \<notin> set ids) (photos w1)\<rparr>))"

text \<open>\<^verbatim>\<open>enforceMaxPhotos().catch(() => {})\<close>: the run started by an upload.\<close>

definition enforce_detached ::
  "js_num \<Rightarrow> (string \<Rightarrow> bool) \<Rightarrow> photo list \<Rightarrow> world \<Rightarrow> world" where
  "enforce_detached max_photos fails scan w =
     (case enforceMaxPhotos max_photos fails scan w of Inl e \<Rightarrow> w | Inr w' \<Rightarrow> w')"

text \<open>
  \<^verbatim>\<open>enforceMaxPhotos\<close> of the SQLite variant. \<open>select_extra_sqlite\<close> is its query,
  \<^verbatim>\<open>ORDER BY datetime(createdAt) DESC LIMIT 1000000 OFFSET MAX_PHOTOS\<close>; the callback
  returns on an error. The \<^verbatim>\<open>DELETE\<close> holds one \<^verbatim>\<open>?\<close> for each row and is run without a
  callback: with more of them than SQLite takes, the statement fails, no row is deleted
  and nothing catches the error (the second component of the result).
\<close>

definition select_extra_sqlite :: "js_num \<Rightarrow> photo list \<Rightarrow> db_error + photo list" where
  "select_extra_sqlite max_photos scan =
     (case sqlite_offset max_photos (order_by_desc sqlite_key scan) of
        Inl e \<Rightarrow> Inl e
      | Inr rest \<Rightarrow> sqlite_limit (Num 1000000) rest)"

definition enforceMaxPhotos_sqlite ::
  "js_num \<Rightarrow> (string \<Rightarrow> bool) \<Rightarrow> photo list \<Rightarrow> world \<Rightarrow> world \<times> db_error option" where
  "enforceMaxPhotos_sqlite max_photos fails scan w =
     (case select_extra_sqlite max_photos scan of
        Inl err \<Rightarrow> (w, None)
      | Inr rows \<Rightarrow>
          if rows = [] then (w, None)
          else
            let ids = map photo_id rows;
                publicIds = map public_id rows;
                w1 = fold (destroy_catch fails) publicIds w
            in if sqlite_max_variables < length ids then (w1, Some Too_many_variables)
               else (w1\<lparr>photos := filter (\<lambda>r. photo_id r \<notin> set ids) (photos w1)\<rparr>, None))"

subsection \<open>Routes\<close>

text \<open>
  \<^verbatim>\<open>GET /photos\<close>. \<open>q\<close> is \<^verbatim>\<open>req.query.limit\<close>, a string or absent (a parameter that
  Express turns into an array or an object, as \<^verbatim>\<open>limit=1&limit=2\<close> and \<^verbatim>\<open>limit[a]=1\<close>,
  is left out). The query is
  \<^verbatim>\<open>ORDER BY created_at DESC LIMIT $1\<close>, in the SQLite variant
  \<^verbatim>\<open>ORDER BY datetime(createdAt) DESC LIMIT ?\<close>.
\<close>

definition photos_limit :: "nat list option \<Rightarrow> js_num" where
  "photos_limit q = Math_min (parseInt (or_default q (ascii ''800''))) (Num 2000)"

definition GET_photos :: "nat list option \<Rightarrow> photo list \<Rightarrow> response" where
  "GET_photos q scan =
     (let limit = photos_limit q
      in case pg_limit limit (order_by_desc created_at scan) of
           Inl e \<Rightarrow> \<lparr>status = 500, body = Failed ''DB error'' (Db e)\<rparr>
         | Inr rows \<Rightarrow> \<lparr>status = 200, body = Photos (map to_json rows)\<rparr>)"

definition GET_photos_sqlite :: "nat list option \<Rightarrow> photo list \<Rightarrow> response" where
  "GET_photos_sqlite q scan =
     (let limit = photos_limit q
      in case sqlite_limit limit (order_by_desc sqlite_key scan) of
           Inl e \<Rightarrow> \<lparr>status = 500, body = Failed ''DB error'' (Db e)\<rparr>
         | Inr rows \<Rightarrow> \<lparr>status = 200, body = Photos (map to_json rows)\<rparr>)"

text \<open>
  What \<^verbatim>\<open>POST /upload\<close> takes from its surroundings: whether \<^verbatim>\<open>req.file\<close> is there, the
  value of \<^verbatim>\<open>uuidv4()\<close>, the clock, the outcome of the upload to Cloudinary (an error, or
  \<^verbatim>\<open>public_id\<close> and \<^verbatim>\<open>secure_url\<close>) and the value of \<^verbatim>\<open>makeThumbnailUrl(publicId)\<close>.
\<close>

record upload =
  req_file :: bool
  new_id :: string
  now :: int
  cloud :: "string + string \<times> string"
  thumbnail :: string

definition new_row :: "upload \<Rightarrow> string \<Rightarrow> string \<Rightarrow> photo" where
  "new_row req publicId secure_url =
     \<lparr>photo_id = new_id req, public_id = publicId, url = secure_url,
      thumbnail_url = thumbnail req, created_at = now req\<rparr>"

text \<open>
  \<^verbatim>\<open>POST /upload\<close>, up to the response. The third component says whether the handler
  started \<^verbatim>\<open>enforceMaxPhotos\<close>, which runs detached from the request.
\<close>

definition POST_upload :: "upload \<Rightarrow> world \<Rightarrow> response \<times> world \<times> bool" where
  "POST_upload req w =
     (if \<not> req_file req then (\<lparr>status = 400, body = Message ''No file uploaded''\<rparr>, w, False)
      else
        case cloud req of
          Inl e \<Rightarrow> (\<lparr>status = 500, body = Failed ''Upload failed'' (Cloud e)\<rparr>, w, False)
        | Inr (publicId, secure_url) \<Rightarrow>
            let w1 = w\<lparr>blobs := List.insert publicId (blobs w)\<rparr>;
                row = new_row req publicId secure_url
            in case insert_photo row (photos w1) of
                 Inl e \<Rightarrow>
                   (\<lparr>status = 500, body = Failed ''Upload failed'' (Db e)\<rparr>, w1, False)
               | Inr rows \<Rightarrow>
                   let photo = to_json row;
                       w2 = sseSend (Photo_uploaded photo) (w1\<lparr>photos := rows\<rparr>)
                   in (\<lparr>status = 200, body = Uploaded ''Uploaded successfully'' photo\<rparr>,
                       w2, True))"

definition POST_upload_sqlite :: "upload \<Rightarrow> world \<Rightarrow> response \<times> world \<times> bool" where
  "POST_upload_sqlite req w =
     (if \<not> req_file req then (\<lparr>status = 400, body = Message ''No file uploaded''\<rparr>, w, False)
      else
        case cloud req of
          Inl e \<Rightarrow> (\<lparr>status = 500, body = Failed ''Upload failed'' (Cloud e)\<rparr>, w, False)
        | Inr (publicId, secure_url) \<Rightarrow>
            let w1 = w\<lparr>blobs := List.insert publicId (blobs w)\<rparr>;
                row = new_row req publicId secure_url
            in case insert_photo row (photos w1) of
                 Inl e \<Rightarrow>
                   (\<lparr>status = 500, body = Failed ''DB insert error'' (Db e)\<rparr>, w1, False)
               | Inr rows \<Rightarrow>
                   let photo = to_json row;
                       w2 = sseSend (Photo_uploaded photo) (w1\<lparr>photos := rows\<rparr>)
                   in (\<lparr>status = 200, body = Uploaded ''Uploaded successfully'' photo\<rparr>,
                       w2, True))"

text \<open>
  \<^verbatim>\<open>DELETE /photos/:id\<close>. \<open>admin_key\<close> is the constant \<^verbatim>\<open>ADMIN_KEY\<close>, \<open>key\<close> the header
  \<^verbatim>\<open>x-admin-key\<close> (\<open>None\<close> when the request has none), \<open>id'\<close> the path parameter.
  \<^verbatim>\<open>server.js\<close> selects the rows with that identifier and takes \<^verbatim>\<open>rows[0]\<close>; the SQLite
  variant asks \<^verbatim>\<open>db.get\<close> for the first such row.
\<close>

definition DELETE_photo ::
  "string \<Rightarrow> (string \<Rightarrow> bool) \<Rightarrow> string option \<Rightarrow> string \<Rightarrow> world \<Rightarrow> response \<times> world" where
  "DELETE_photo admin_key fails key id' w =
     (if key \<noteq> Some admin_key
      then (\<lparr>status = 403, body = Message ''Forbidden (Admin only)''\<rparr>, w)
      else
        case filter (\<lambda>r. photo_id r = id') (photos w) of
          [] \<Rightarrow> (\<lparr>status = 404, body = Message ''Photo not found''\<rparr>, w)
        | row # _ \<Rightarrow>
            let w1 = destroy_catch fails (public_id row) w;
                w2 = w1\<lparr>photos := filter (\<lambda>r. photo_id r \<noteq> id') (photos w1)\<rparr>;
                w3 = sseSend (Photo_deleted id') w2
            in (\<lparr>status = 200, body = Deleted ''Photo deleted successfully'' id'\<rparr>, w3))"

definition DELETE_photo_sqlite ::
  "string \<Rightarrow> (string \<Rightarrow> bool) \<Rightarrow> string option \<Rightarrow> string \<Rightarrow> world \<Rightarrow> response \<times> world" where
  "DELETE_photo_sqlite admin_key fails key id' w =
     (if key \<noteq> Some admin_key
      then (\<lparr>status = 403, body = Message ''Forbidden (Admin only)''\<rparr>, w)
      else
        case find (\<lambda>r. photo_id r = id') (photos w) of
          None \<Rightarrow> (\<lparr>status = 404, body = Message ''Photo not found''\<rparr>, w)
        | Some row \<Rightarrow>
            let w1 = destroy_catch fails (public_id row) w;
                w2 = w1\<lparr>photos := filter (\<lambda>r. photo_id r \<noteq> id') (photos w1)\<rparr>;
                w3 = sseSend (Photo_deleted id') w2
            in (\<lparr>status = 200, body = Deleted ''Photo deleted successfully'' id'\<rparr>, w3))"

subsection \<open>Sequential uploads\<close>

text \<open>
  One upload followed by the enforcement run it started, run to its end before anything
  else happens. \<open>scan\<close> is for the query of that run. The response is the one the
  handler sent before the run.
\<close>

definition upload_run ::
  "js_num \<Rightarrow> upload \<times> (string \<Rightarrow> bool) \<times> photo list \<Rightarrow> world \<Rightarrow> response \<times> world" where
  "upload_run max_photos x w =
     (case x of (req, fails, scan) \<Rightarrow>
        (case POST_upload req w of (resp, w1, started) \<Rightarrow>
           (resp, if started then enforce_detached max_photos fails scan w1 else w1)))"

definition upload_run_sqlite ::
  "js_num \<Rightarrow> upload \<times> (string \<Rightarrow> bool) \<times> photo list \<Rightarrow> world \<Rightarrow> response \<times> world" where
  "upload_run_sqlite max_photos x w =
     (case x of (req, fails, scan) \<Rightarrow>
        (case POST_upload_sqlite req w of (resp, w1, started) \<Rightarrow>
           (resp,
            if started then fst (enforceMaxPhotos_sqlite max_photos fails scan w1) else w1)))"

fun uploads ::
  "js_num \<Rightarrow> (upload \<times> (string \<Rightarrow> bool) \<times> photo list) list \<Rightarrow> world \<Rightarrow> world" where
  "uploads max_photos [] w = w"
| "uploads max_photos (x # xs) w = uploads max_photos xs (snd (upload_run max_photos x w))"

fun uploads_sqlite ::
  "js_num \<Rightarrow> (upload \<times> (string \<Rightarrow> bool) \<times> photo list) list \<Rightarrow> world \<Rightarrow> world" where
  "uploads_sqlite max_photos [] w = w"
| "uploads_sqlite max_photos (x # xs) w =
     uploads_sqlite max_photos xs (snd (upload_run_sqlite max_photos x w))"

text \<open>
  \<open>answers max_photos xs w\<close>: in the run of \<open>xs\<close> from \<open>w\<close>, each \<open>scan\<close> holds the rows
  of the table as the upload left it, in some order.
\<close>

fun answers ::
  "js_num \<Rightarrow> (upload \<times> (string \<Rightarrow> bool) \<times> photo list) list \<Rightarrow> world \<Rightarrow> bool" where
  "answers max_photos [] w = True"
| "answers max_photos (x # xs) w =
     (mset (snd (snd x)) = mset (photos (fst (snd (POST_upload (fst x) w)))) \<and>
      answers max_photos xs (snd (upload_run max_photos x w)))"

fun answers_sqlite ::
  "js_num \<Rightarrow> (upload \<times> (string \<Rightarrow> bool) \<times> photo list) list \<Rightarrow> world \<Rightarrow> bool" where
  "answers_sqlite max_photos [] w = True"
| "answers_sqlite max_photos (x # xs) w =
     (mset (snd (snd x)) = mset (photos (fst (snd (POST_upload_sqlite (fst x) w)))) \<and>
      answers_sqlite max_photos xs (snd (upload_run_sqlite max_photos x w)))"

text \<open>The row an upload writes when Cloudinary has accepted the file.\<close>

definition uploaded :: "upload \<Rightarrow> photo" where
  "uploaded req =
     (case cloud req of
        Inr (publicId, secure_url) \<Rightarrow> new_row req publicId secure_url
      | Inl e \<Rightarrow> new_row req [] [])"

definition accepted :: "upload \<Rightarrow> bool" where
  "accepted req \<longleftrightarrow> req_file req \<and> (case cloud req of Inr x \<Rightarrow> True | Inl e \<Rightarrow> False)"

definition empty_world :: world where
  "empty_world = \<lparr>photos = [], blobs = [], destroy_calls = [], sseClients = [], written = []\<rparr>"

text \<open>
  \<open>holds_newest m H cat\<close>: of the rows \<open>H\<close> uploaded so far, under distinct identifiers,
  the catalog \<open>cat\<close> holds \<open>min (length H) m\<close>, and none that it lacks is newer than one
  that it holds.
\<close>

definition holds_newest :: "nat \<Rightarrow> photo list \<Rightarrow> photo list \<Rightarrow> bool" where
  "holds_newest m H cat \<longleftrightarrow>
     distinct (map photo_id H) \<and> distinct (map photo_id cat) \<and> set cat \<subseteq> set H \<and>
     length cat = min (length H) m \<and>
     (\<forall>r\<in>set cat. \<forall>e\<in>set H - set cat. created_at e \<le> created_at r)"

subsection \<open>The order of the specification\<close>

text \<open>
  The specification orders rows by \<^verbatim>\<open>(createdAt DESC, id DESC)\<close>: \<open>spec_before a b\<close>
  says that \<open>a\<close> may stand before \<open>b\<close> in that order. Identifiers compare as strings.
\<close>

definition spec_before :: "photo \<Rightarrow> photo \<Rightarrow> bool" where
  "spec_before a b \<longleftrightarrow>
     created_at b < created_at a \<or> (created_at b = created_at a \<and> photo_id b \<le> photo_id a)"

definition spec_ordered :: "photo list \<Rightarrow> bool" where
  "spec_ordered ord \<longleftrightarrow> sorted_wrt spec_before ord"

subsection \<open>Concrete uploads and catalogs\<close>

text \<open>
  The upload of a file that Cloudinary accepts, with the identifier \<open>i\<close> drawn and the
  clock at \<open>t\<close>, and the row it leaves in the table.
\<close>

definition shot :: "string \<Rightarrow> int \<Rightarrow> upload" where
  "shot i t = \<lparr>req_file = True, new_id = i, now = t,
               cloud = Inr (''memorial_wall/'' @ i, ''https://cdn/'' @ i),
               thumbnail = ''https://cdn/thumb/'' @ i\<rparr>"

definition row :: "string \<Rightarrow> int \<Rightarrow> photo" where
  "row i t = \<lparr>photo_id = i, public_id = ''memorial_wall/'' @ i, url = ''https://cdn/'' @ i,
              thumbnail_url = ''https://cdn/thumb/'' @ i, created_at = t\<rparr>"

text \<open>A catalog of \<open>n\<close> photos taken one second apart, newest first.\<close>

definition wall :: "nat \<Rightarrow> photo list" where
  "wall n = map (\<lambda>i. row (replicate (Suc i) (CHR ''x'')) (1700000000000 - 1000 * int i)) [0..<n]"

text \<open>Photos with the identifiers \<open>ids\<close>, all created in the millisecond \<open>t\<close>.\<close>

definition burst :: "string list \<Rightarrow> int \<Rightarrow> photo list" where
  "burst ids t = map (\<lambda>i. row i t) ids"

definition no_failure :: "string \<Rightarrow> bool" where
  "no_failure pid = False"

section \<open>Properties\<close>

subsection \<open>Settings and numbers\<close>

lemma excess_small: "a < 2 ^ 53 \<Longrightarrow> excess a = 0"
  by (simp add: excess.simps)

lemma round_double_small: "\<bar>n\<bar> < 2 ^ 53 \<Longrightarrow> round_double n = n"
  by (simp add: round_double_def excess_small)

lemmas parse_defs =
  parseInt_def ascii_def is_space_def is_digit_def digit_val_def round_double_small

lemma ADMIN_KEY_unset: "ADMIN_KEY None = ''12345''"
  by (simp add: ADMIN_KEY_def or_default_def)

lemma parseInt_Nil: "parseInt [] = NaN"
  by (simp add: parseInt_def)

lemma parseInt_minus_one: "parseInt (ascii ''-1'') = Num (- 1)"
  by (simp add: parse_defs)

lemma photos_limit_minus_one: "photos_limit (Some (ascii ''-1'')) = Num (- 1)"
  using parseInt_minus_one by (simp add: photos_limit_def or_default_def ascii_def)

lemma photos_limit_absent: "photos_limit None = Num 800"
  by (simp add: photos_limit_def or_default_def parse_defs)

lemma photos_limit_parsed:
  assumes "parseInt s = Num v"
  shows "photos_limit (Some s) = Num (min v 2000)"
proof -
  from assms have "s \<noteq> []" by (auto simp: parseInt_Nil)
  with assms show ?thesis by (simp add: photos_limit_def or_default_def)
qed

lemma parseInt_no_digit:
  assumes "\<forall>c\<in>set s. \<not> is_digit c"
  shows "parseInt s = NaN"
proof -
  let ?t = "dropWhile is_space s"
  let ?u = "if ?t \<noteq> [] \<and> (hd ?t = 0x2D \<or> hd ?t = 0x2B) then tl ?t else ?t"
  have "set ?t \<subseteq> set s" by (rule set_dropWhileD [THEN subsetI])
  moreover have "set ?u \<subseteq> set ?t" by (cases ?t) auto
  ultimately have "\<forall>c\<in>set ?u. \<not> is_digit c" using assms by blast
  then have "takeWhile is_digit ?u = []" by (cases ?u) auto
  then show ?thesis by (simp add: parseInt_def Let_def)
qed

text \<open>The no-break space before a number is skipped.\<close>

lemma parseInt_nbsp: "parseInt (0xA0 # ascii ''1'') = Num 1"
  by (simp add: parse_defs)

text \<open>The greatest 64-bit integer is no double: it reads as \<open>2^63\<close>.\<close>

lemma parseInt_bigint_max: "parseInt (ascii ''9223372036854775807'') = Num 9223372036854775808"
  by (simp add: parseInt_def ascii_def is_space_def is_digit_def digit_val_def
      round_double_def excess.simps)

lemma sqlite_limit_negative:
  "- bigint_max - 1 < v \<Longrightarrow> v < 0 \<Longrightarrow> sqlite_limit (Num v) xs = Inr xs"
  by (simp add: sqlite_limit_def sqlite_integer_def)

lemma pg_limit_nat: "int k \<le> bigint_max \<Longrightarrow> pg_limit (Num (int k)) xs = Inr (take k xs)"
  by (simp add: pg_limit_def pg_count_def bigint_max_def)

lemma pg_offset_nat: "int k \<le> bigint_max \<Longrightarrow> pg_offset (Num (int k)) xs = Inr (drop k xs)"
  by (simp add: pg_offset_def pg_count_def bigint_max_def)

lemma sqlite_limit_nat:
  "int k < bigint_max \<Longrightarrow> sqlite_limit (Num (int k)) xs = Inr (take k xs)"
  by (simp add: sqlite_limit_def sqlite_integer_def bigint_max_def)

lemma sqlite_offset_nat:
  "int k < bigint_max \<Longrightarrow> sqlite_offset (Num (int k)) xs = Inr (drop k xs)"
  by (simp add: sqlite_offset_def sqlite_integer_def bigint_max_def)

lemma pg_limit_Inr: "pg_limit n xs = Inr ys \<Longrightarrow> \<exists>m. ys = take m xs"
  by (auto simp: pg_limit_def split: sum.splits)

lemma pg_offset_Inr: "pg_offset n xs = Inr ys \<Longrightarrow> \<exists>m. ys = drop m xs"
  by (auto simp: pg_offset_def split: sum.splits)

lemma sqlite_limit_Inr: "sqlite_limit n xs = Inr ys \<Longrightarrow> \<exists>m. ys = take m xs"
  by (auto simp: sqlite_limit_def split: sum.splits if_splits intro: exI [of _ "length xs"])

lemma sqlite_offset_Inr: "sqlite_offset n xs = Inr ys \<Longrightarrow> \<exists>m. ys = drop m xs"
  by (auto simp: sqlite_offset_def split: sum.splits if_splits intro: exI [of _ 0])

subsection \<open>The answer to \<^verbatim>\<open>ORDER BY\<close>\<close>

lemma sorted_desc_iff:
  "sorted_wrt (\<lambda>a b. key b \<le> key a) xs \<longleftrightarrow> sorted (map (\<lambda>r. - key r) xs)"
  for key :: "photo \<Rightarrow> int"
  by (simp add: sorted_map)

lemma sorted_order_by_desc: "sorted_wrt (\<lambda>a b. key b \<le> key a) (order_by_desc key scan)"
  by (simp add: sorted_desc_iff order_by_desc_def)

lemma mset_order_by_desc: "mset (order_by_desc key scan) = mset scan"
  by (simp add: order_by_desc_def)

lemma set_order_by_desc: "set (order_by_desc key scan) = set scan"
  by (simp add: order_by_desc_def)

lemma length_order_by_desc: "length (order_by_desc key scan) = length scan"
  by (simp add: order_by_desc_def)

lemma order_by_desc_sorted:
  "sorted_wrt (\<lambda>a b. key b \<le> key a) xs \<Longrightarrow> order_by_desc key xs = xs"
  by (simp add: sorted_desc_iff order_by_desc_def sort_key_id_if_sorted)

text \<open>
  Every order of the rows in which the key never increases is the answer for some
  \<open>scan\<close>: the stable sort takes nothing from what SQL allows.
\<close>

lemma order_by_desc_any:
  assumes "mset ord = mset rows" "sorted_wrt (\<lambda>a b. key b \<le> key a) ord"
  shows "\<exists>scan. mset scan = mset rows \<and> order_by_desc key scan = ord"
  using assms order_by_desc_sorted by blast

lemma sorted_desc_keys:
  fixes key :: "photo \<Rightarrow> int"
  assumes "mset o1 = mset o2"
    "sorted_wrt (\<lambda>a b. key b \<le> key a) o1" "sorted_wrt (\<lambda>a b. key b \<le> key a) o2"
  shows "map key o1 = map key o2"
proof -
  let ?f = "\<lambda>r. - key r"
  have "mset (map ?f o1) = mset (map ?f o2)" using assms(1) by simp
  moreover have "sorted (map ?f o1)" "sorted (map ?f o2)"
    using assms(2,3) by (simp_all add: sorted_desc_iff)
  ultimately have "map ?f o1 = map ?f o2"
    by (metis properties_for_sort)
  then have "map uminus (map ?f o1) = map uminus (map ?f o2)" by simp
  then show ?thesis by (simp add: comp_def)
qed

lemma sorted_desc_unique:
  fixes key :: "photo \<Rightarrow> int"
  assumes "mset o1 = mset o2"
    "sorted_wrt (\<lambda>a b. key b \<le> key a) o1" "sorted_wrt (\<lambda>a b. key b \<le> key a) o2"
    "distinct (map key o1)"
  shows "o1 = o2"
proof -
  have s: "set o2 = set o1" using assms(1) by (metis mset_eq_setD)
  have "inj_on key (set o1)" using assms(4) by (simp add: distinct_map)
  then have "inj_on key (set o1 \<union> set o2)" using s by simp
  moreover have "map key o1 = map key o2" using assms(1-3) by (rule sorted_desc_keys)
  ultimately show ?thesis by (rule inj_on_map_eq_map [THEN iffD1])
qed

lemma order_by_desc_keys:
  assumes "mset s1 = mset s2"
  shows "map key (order_by_desc key s1) = map key (order_by_desc key s2)"
  by (rule sorted_desc_keys) (simp_all add: mset_order_by_desc assms sorted_order_by_desc)

lemma distinct_keys_mset:
  assumes "mset s1 = mset s2" "distinct (map key s1)"
  shows "distinct (map key s2)"
proof -
  have "mset (map key s1) = mset (map key s2)" using assms(1) by simp
  with assms(2) show ?thesis by (metis mset_eq_imp_distinct_iff)
qed

lemma order_by_desc_unique:
  assumes "mset s1 = mset s2" "distinct (map key s1)"
  shows "order_by_desc key s1 = order_by_desc key s2"
proof (rule sorted_desc_unique)
  show "mset (order_by_desc key s1) = mset (order_by_desc key s2)"
    by (simp add: mset_order_by_desc assms(1))
  show "distinct (map key (order_by_desc key s1))"
    using distinct_keys_mset [of s1 "order_by_desc key s1" key] assms(2)
    by (simp add: mset_order_by_desc)
qed (rule sorted_order_by_desc)+

text \<open>
  When no two rows were created within the same second, the two sort keys order the rows
  alike, whatever the order in which the engines meet them.
\<close>

lemma order_by_desc_sqlite_key:
  assumes "mset scan' = mset scan" "distinct (map sqlite_key scan)"
  shows "order_by_desc sqlite_key scan' = order_by_desc created_at scan"
proof (rule sorted_desc_unique)
  show "mset (order_by_desc sqlite_key scan') = mset (order_by_desc created_at scan)"
    using assms(1) by (simp add: mset_order_by_desc)
  show "sorted_wrt (\<lambda>a b. sqlite_key b \<le> sqlite_key a) (order_by_desc sqlite_key scan')"
    by (rule sorted_order_by_desc)
  have "sorted_wrt (\<lambda>a b. created_at b \<le> created_at a) (order_by_desc created_at scan)"
    by (rule sorted_order_by_desc)
  then show "sorted_wrt (\<lambda>a b. sqlite_key b \<le> sqlite_key a) (order_by_desc created_at scan)"
    by (rule sorted_wrt_mono_rel [rotated]) (simp add: sqlite_key_def datetime_def zdiv_mono1)
  have "distinct (map sqlite_key scan')"
    using assms(1) [symmetric] assms(2) by (rule distinct_keys_mset)
  moreover have "mset scan' = mset (order_by_desc sqlite_key scan')"
    by (simp add: mset_order_by_desc)
  ultimately show "distinct (map sqlite_key (order_by_desc sqlite_key scan'))"
    by (rule distinct_keys_mset [rotated])
qed

lemma distinct_sqlite_key:
  assumes "distinct (map sqlite_key rows)"
  shows "distinct (map created_at rows)"
proof -
  have "map sqlite_key rows = map datetime (map created_at rows)"
    by (simp add: sqlite_key_def)
  with assms show ?thesis by (simp only: distinct_map)
qed

lemma sorted_wrt_take_drop:
  "sorted_wrt P xs \<Longrightarrow> sorted_wrt P (take n xs) \<and> sorted_wrt P (drop n xs)"
  by (metis append_take_drop_id sorted_wrt_append)

lemma beyond_not_newer:
  assumes "sorted_wrt (\<lambda>a b. key b \<le> key a) xs" "r \<in> set (take n xs)" "e \<in> set (drop n xs)"
  shows "key e \<le> key r"
proof -
  have "sorted_wrt (\<lambda>a b. key b \<le> key a) (take n xs @ drop n xs)" using assms(1) by simp
  then show ?thesis using assms(2,3) unfolding sorted_wrt_append by blast
qed

subsection \<open>The limit of a listing\<close>

lemma wall_ids: "distinct (map photo_id (wall n))"
  by (simp add: wall_def row_def distinct_map inj_on_def comp_def)

lemma length_wall: "length (wall n) = n"
  by (simp add: wall_def)

lemma wall_sorted: "order_by_desc sqlite_key (wall n) = wall n"
proof -
  have "sorted_wrt (\<lambda>i j. sqlite_key (f j) \<le> sqlite_key (f i)) [0..<n]"
    if "\<And>i. created_at (f i) = 1700000000000 - 1000 * int i" for f :: "nat \<Rightarrow> photo"
    by (rule sorted_wrt_mono_rel [of _ "(<)"])
       (auto simp: sqlite_key_def datetime_def that intro!: zdiv_mono1)
  then have "sorted_wrt (\<lambda>a b. sqlite_key b \<le> sqlite_key a) (wall n)"
    by (simp add: wall_def row_def sorted_wrt_map)
  then show ?thesis by (rule order_by_desc_sorted)
qed

lemma GET_photos_bounded:
  assumes "body (GET_photos q scan) = Photos ps"
  shows "\<exists>v. photos_limit q = Num v \<and> 0 \<le> v \<and> v \<le> 2000 \<and> length ps \<le> nat v"
proof (cases "photos_limit q")
  case NaN
  with assms show ?thesis by (simp add: GET_photos_def pg_limit_def pg_count_def)
next
  case (Num v)
  then have "v \<le> 2000"
    by (cases "parseInt (or_default q (ascii ''800''))") (auto simp: photos_limit_def)
  with assms Num show ?thesis
    by (auto simp: GET_photos_def pg_limit_def pg_count_def split: if_splits)
qed

text \<open>
  C5, at the request \<^verbatim>\<open>GET /photos?limit=-1\<close> to the SQLite variant over a catalog of
  2001 photos: the limit handed to the store is \<open>-1\<close>, and the response holds all 2001
  rows, more than the limit and more than the ceiling of 2000.
\<close>

theorem C5_sqlite_negative_limit:
  "photos_limit (Some (ascii ''-1'')) = Num (- 1) \<and>
   distinct (map photo_id (wall 2001)) \<and>
   order_by_desc sqlite_key (wall 2001) = wall 2001 \<and>
   GET_photos_sqlite (Some (ascii ''-1'')) (wall 2001) =
     \<lparr>status = 200, body = Photos (map to_json (wall 2001))\<rparr> \<and>
   length (map to_json (wall 2001)) = 2001"
  by (simp add: photos_limit_minus_one wall_ids wall_sorted GET_photos_sqlite_def
      sqlite_limit_negative bigint_max_def length_wall)

text \<open>
  C8: the limit of \<^verbatim>\<open>GET /photos\<close> is capped from above only. When the parameter parses
  to \<open>v \<le> 2000\<close>, negative or not, \<open>v\<close> itself is the \<^verbatim>\<open>LIMIT\<close> of the query in both
  variants; with \<^verbatim>\<open>limit=-1\<close> the SQLite variant answers with every row; a parameter that
  is not empty and holds no digit gives the limit \<^verbatim>\<open>NaN\<close>, not the default 800.
\<close>

theorem C8_limit_only_capped_above:
  "(parseInt s = Num v \<and> v \<le> 2000 \<longrightarrow>
      photos_limit (Some s) = Num v \<and>
      GET_photos (Some s) scan =
        (case pg_limit (Num v) (order_by_desc created_at scan) of
           Inl e \<Rightarrow> \<lparr>status = 500, body = Failed ''DB error'' (Db e)\<rparr>
         | Inr rows \<Rightarrow> \<lparr>status = 200, body = Photos (map to_json rows)\<rparr>) \<and>
      GET_photos_sqlite (Some s) scan =
        (case sqlite_limit (Num v) (order_by_desc sqlite_key scan) of
           Inl e \<Rightarrow> \<lparr>status = 500, body = Failed ''DB error'' (Db e)\<rparr>
         | Inr rows \<Rightarrow> \<lparr>status = 200, body = Photos (map to_json rows)\<rparr>)) \<and>
   photos_limit (Some (ascii ''-1'')) = Num (- 1) \<and>
   GET_photos_sqlite (Some (ascii ''-1'')) scan =
     \<lparr>status = 200, body = Photos (map to_json (order_by_desc sqlite_key scan))\<rparr> \<and>
   (t \<noteq> [] \<and> (\<forall>c\<in>set t. \<not> is_digit c) \<longrightarrow>
      photos_limit (Some t) = NaN \<and> photos_limit (Some t) \<noteq> photos_limit None)"
proof (intro conjI impI)
  assume a: "parseInt s = Num v \<and> v \<le> 2000"
  then show l: "photos_limit (Some s) = Num v"
    by (simp add: photos_limit_parsed)
  show "GET_photos (Some s) scan =
        (case pg_limit (Num v) (order_by_desc created_at scan) of
           Inl e \<Rightarrow> \<lparr>status = 500, body = Failed ''DB error'' (Db e)\<rparr>
         | Inr rows \<Rightarrow> \<lparr>status = 200, body = Photos (map to_json rows)\<rparr>)"
    by (simp add: GET_photos_def l)
  show "GET_photos_sqlite (Some s) scan =
        (case sqlite_limit (Num v) (order_by_desc sqlite_key scan) of
           Inl e \<Rightarrow> \<lparr>status = 500, body = Failed ''DB error'' (Db e)\<rparr>
         | Inr rows \<Rightarrow> \<lparr>status = 200, body = Photos (map to_json rows)\<rparr>)"
    by (simp add: GET_photos_sqlite_def l)
next
  show "photos_limit (Some (ascii ''-1'')) = Num (- 1)" by (rule photos_limit_minus_one)
next
  show "GET_photos_sqlite (Some (ascii ''-1'')) scan =
     \<lparr>status = 200, body = Photos (map to_json (order_by_desc sqlite_key scan))\<rparr>"
    by (simp add: GET_photos_sqlite_def photos_limit_minus_one sqlite_limit_negative
        bigint_max_def)
next
  assume b: "t \<noteq> [] \<and> (\<forall>c\<in>set t. \<not> is_digit c)"
  then show n: "photos_limit (Some t) = NaN"
    by (simp add: photos_limit_def or_default_def parseInt_no_digit)
  show "photos_limit (Some t) \<noteq> photos_limit None"
    by (simp add: n photos_limit_absent)
qed

theorem C8_witness:
  "(parseInt (ascii ''-5'') = Num (- 5) \<and> (- 5 :: int) \<le> 2000) \<and>
   photos_limit (Some (ascii ''-5'')) = Num (- 5) \<and>
   GET_photos (Some (ascii ''-5'')) [row ''a'' 1] =
     \<lparr>status = 500, body = Failed ''DB error'' (Db Negative_limit)\<rparr> \<and>
   GET_photos_sqlite (Some (ascii ''-5'')) [row ''a'' 1] =
     \<lparr>status = 200, body = Photos [to_json (row ''a'' 1)]\<rparr> \<and>
   ascii ''abc'' \<noteq> [] \<and> \<not> (\<exists>c\<in>set (ascii ''abc''). is_digit c) \<and>
   photos_limit (Some (ascii ''abc'')) = NaN"
proof -
  have p: "parseInt (ascii ''-5'') = Num (- 5) \<and> (- 5 :: int) \<le> 2000"
    by (simp add: parse_defs)
  have q: "ascii ''abc'' \<noteq> [] \<and> (\<forall>c\<in>set (ascii ''abc''). \<not> is_digit c)"
    by (simp add: is_digit_def ascii_def)
  show ?thesis
    using C8_limit_only_capped_above [of "ascii ''-5''" "- 5" "[row ''a'' 1]" "ascii ''abc''"] p q
    by (simp add: pg_limit_def pg_count_def sqlite_limit_def sqlite_integer_def bigint_max_def
        order_by_desc_def)
qed

subsection \<open>Rounding to a double\<close>

lemma excess_bounds:
  "2 ^ 52 \<le> a \<Longrightarrow> 2 ^ 52 \<le> a div 2 ^ excess a \<and> a div 2 ^ excess a < 2 ^ 53"
proof (induction a rule: excess.induct)
  case (1 a)
  show ?case
  proof (cases "a < 2 ^ 53")
    case True
    with "1.prems" show ?thesis by (simp add: excess_small)
  next
    case False
    then have e: "excess a = Suc (excess (a div 2))" by (simp add: excess.simps)
    have "2 ^ 52 \<le> a div 2" using False by simp
    from "1.IH" [OF False this] show ?thesis
      by (simp add: e div_mult2_eq)
  qed
qed

lemma round_double_large:
  assumes "2 ^ 53 \<le> n"
  shows "2 ^ 53 \<le> round_double n"
proof -
  let ?a = "nat \<bar>n\<bar>"
  let ?e = "excess ?a"
  let ?q = "?a div 2 ^ ?e"
  from assms have a: "2 ^ 53 \<le> ?a" by (simp add: le_nat_iff)
  then have e: "?e \<noteq> 0" by (simp add: excess.simps)
  have q: "2 ^ 52 \<le> ?q" using excess_bounds [of ?a] a by simp
  have "(2::nat) ^ 53 = 2 ^ 52 * 2 ^ 1" by simp
  also have "\<dots> \<le> ?q * 2 ^ ?e"
    using q e by (intro mult_le_mono power_increasing) auto
  finally have le: "2 ^ 53 \<le> ?q * 2 ^ ?e" .
  have "2 ^ 53 \<le> (if c then ?q + 1 else ?q) * 2 ^ ?e" for c
    using le by (cases c) (auto simp: algebra_simps intro: trans_le_add1)
  then have "int (2 ^ 53) \<le> int ((if c then ?q + 1 else ?q) * 2 ^ ?e)" for c
    by (rule iffD2 [OF of_nat_le_iff])
  moreover have "sgn n = 1" using assms by (simp add: sgn_if)
  ultimately show ?thesis
    using e by (simp add: round_double_def Let_def)
qed

lemma min_round_double:
  assumes "0 \<le> n"
  shows "min (round_double n) 2000 = min n 2000"
proof (cases "n < 2 ^ 53")
  case True
  with assms show ?thesis by (simp add: round_double_small)
next
  case False
  then have "2 ^ 53 \<le> n" by simp
  then have "2 ^ 53 \<le> round_double n" by (rule round_double_large)
  with False show ?thesis by simp
qed

subsection \<open>The order of a listing and of an eviction\<close>

lemma sorted_to_json:
  "sorted_wrt (\<lambda>a b. json_createdAt b \<le> json_createdAt a) (map to_json xs) \<longleftrightarrow>
   sorted_wrt (\<lambda>a b. created_at b \<le> created_at a) xs"
  by (simp add: sorted_wrt_map to_json_def)

lemma map_json_createdAt: "map json_createdAt (map to_json xs) = map created_at xs"
  by (simp add: to_json_def)

lemma GET_photos_rows:
  assumes "body (GET_photos q scan) = Photos ps"
  shows "\<exists>k. ps = map to_json (take k (order_by_desc created_at scan))"
  using assms
  by (auto simp: GET_photos_def Let_def split: sum.splits dest: pg_limit_Inr)

lemma select_extra_rows:
  assumes "select_extra max_photos scan = Inr extra"
  shows "\<exists>k. extra = drop k (order_by_desc created_at scan)"
  using assms by (auto simp: select_extra_def dest: pg_offset_Inr)

lemma GET_photos_sqlite_rows:
  assumes "body (GET_photos_sqlite q scan) = Photos ps"
  shows "\<exists>k. ps = map to_json (take k (order_by_desc sqlite_key scan))"
  using assms
  by (auto simp: GET_photos_sqlite_def Let_def split: sum.splits dest: sqlite_limit_Inr)

lemma select_extra_sqlite_rows:
  assumes "select_extra_sqlite max_photos scan = Inr rows"
  shows "\<exists>k n. rows = take n (drop k (order_by_desc sqlite_key scan))"
  using assms
  by (auto simp: select_extra_sqlite_def split: sum.splits
      dest!: sqlite_offset_Inr sqlite_limit_Inr)

lemma strict_desc_spec_ordered:
  assumes "sorted_wrt (\<lambda>a b. created_at b \<le> created_at a) ord" "distinct (map created_at ord)"
  shows "spec_ordered ord"
proof -
  let ?f = "\<lambda>r. - created_at r"
  have "distinct (map uminus (map created_at ord))"
    using assms(2) by (subst distinct_map) (simp add: inj_on_def)
  then have "distinct (map ?f ord)" by (simp add: comp_def)
  moreover have "sorted (map ?f ord)" using assms(1) by (simp add: sorted_desc_iff)
  ultimately have "sorted_wrt (<) (map ?f ord)" by (simp add: strict_sorted_iff)
  then have "sorted_wrt (\<lambda>a b. created_at b < created_at a) ord"
    by (simp add: sorted_wrt_map)
  then show ?thesis
    unfolding spec_ordered_def
    by (rule sorted_wrt_mono_rel [rotated]) (simp add: spec_before_def)
qed

text \<open>
  C1, as amended. In \<^verbatim>\<open>server.js\<close> the listing and the selection of the rows to evict
  are ordered by \<^verbatim>\<open>created_at\<close>, newest first, and by nothing else: \<^verbatim>\<open>id\<close> is no second
  key. Whatever the order in which the engine meets the rows, two listings show the same
  sequence of time stamps. When no two rows of the catalog have the same time stamp,
  listing and run do not depend on that order, and both operations read one order of the
  catalog, the order \<^verbatim>\<open>(createdAt DESC, id DESC)\<close> of the specification: the listing its
  first rows, the selection the rows from \<^verbatim>\<open>MAX_PHOTOS\<close> on. The two queries of the SQLite
  variant read that order when no two rows of the catalog were created within the same
  second.
\<close>

theorem C1_created_at_only:
  assumes "mset scan1 = mset (photos w)" "mset scan2 = mset (photos w)"
  shows
    "(\<forall>ps. body (GET_photos q scan1) = Photos ps \<longrightarrow>
        sorted_wrt (\<lambda>a b. json_createdAt b \<le> json_createdAt a) ps) \<and>
     (\<forall>extra. select_extra max_photos scan2 = Inr extra \<longrightarrow>
        sorted_wrt (\<lambda>a b. created_at b \<le> created_at a) extra) \<and>
     (\<forall>ps1 ps2. body (GET_photos q scan1) = Photos ps1 \<and> body (GET_photos q scan2) = Photos ps2 \<longrightarrow>
        map json_createdAt ps1 = map json_createdAt ps2) \<and>
     (distinct (map created_at (photos w)) \<longrightarrow>
        GET_photos q scan1 = GET_photos q scan2 \<and>
        enforceMaxPhotos max_photos fails scan1 w = enforceMaxPhotos max_photos fails scan2 w \<and>
        (\<exists>ord. mset ord = mset (photos w) \<and> spec_ordered ord \<and>
           (\<forall>ps. body (GET_photos q scan1) = Photos ps \<longrightarrow>
              (\<exists>k. ps = map to_json (take k ord))) \<and>
           (\<forall>extra. select_extra max_photos scan2 = Inr extra \<longrightarrow>
              (\<exists>k. extra = drop k ord)))) \<and>
     (distinct (map sqlite_key (photos w)) \<longrightarrow>
        (\<exists>ord. mset ord = mset (photos w) \<and> spec_ordered ord \<and>
           (\<forall>ps. body (GET_photos_sqlite q scan1) = Photos ps \<longrightarrow>
              (\<exists>k. ps = map to_json (take k ord))) \<and>
           (\<forall>rows. select_extra_sqlite max_photos scan2 = Inr rows \<longrightarrow>
              (\<exists>k n. rows = take n (drop k ord)))))"
proof -
  let ?o1 = "order_by_desc created_at scan1" and ?o2 = "order_by_desc created_at scan2"
  have m: "mset scan1 = mset scan2" using assms by simp
  have s1: "sorted_wrt (\<lambda>a b. created_at b \<le> created_at a) ?o1"
    and s2: "sorted_wrt (\<lambda>a b. created_at b \<le> created_at a) ?o2"
    by (rule sorted_order_by_desc)+
  have keys: "map created_at ?o1 = map created_at ?o2"
    using m by (rule order_by_desc_keys)
  show ?thesis
  proof (intro conjI allI impI)
    fix ps assume "body (GET_photos q scan1) = Photos ps"
    then obtain k where "ps = map to_json (take k ?o1)"
      by (auto dest: GET_photos_rows)
    with s1 show "sorted_wrt (\<lambda>a b. json_createdAt b \<le> json_createdAt a) ps"
      by (simp add: sorted_to_json sorted_wrt_take_drop)
  next
    fix extra assume "select_extra max_photos scan2 = Inr extra"
    then obtain k where "extra = drop k ?o2"
      by (auto dest: select_extra_rows)
    with s2 show "sorted_wrt (\<lambda>a b. created_at b \<le> created_at a) extra"
      by (simp add: sorted_wrt_take_drop)
  next
    fix ps1 ps2
    assume a: "body (GET_photos q scan1) = Photos ps1 \<and> body (GET_photos q scan2) = Photos ps2"
    then obtain n where n: "pg_count Negative_limit (photos_limit q) = Inr n"
      by (cases "pg_count Negative_limit (photos_limit q)")
         (auto simp: GET_photos_def pg_limit_def Let_def)
    then have "ps1 = map to_json (take n ?o1)" "ps2 = map to_json (take n ?o2)"
      using a by (auto simp: GET_photos_def pg_limit_def Let_def)
    then have "map json_createdAt ps1 = take n (map created_at ?o1)"
      "map json_createdAt ps2 = take n (map created_at ?o2)"
      by (simp_all only: map_json_createdAt take_map)
    then show "map json_createdAt ps1 = map json_createdAt ps2"
      by (simp only: keys)
  next
    assume d: "distinct (map created_at (photos w))"
    have d1: "distinct (map created_at scan1)"
      using distinct_keys_mset [OF assms(1) [symmetric] d] .
    have e: "?o1 = ?o2" using m d1 by (rule order_by_desc_unique)
    show "GET_photos q scan1 = GET_photos q scan2"
      by (simp add: GET_photos_def e)
    show "enforceMaxPhotos max_photos fails scan1 w = enforceMaxPhotos max_photos fails scan2 w"
      by (simp add: enforceMaxPhotos_def select_extra_def e)
    have "distinct (map created_at ?o1)"
      using distinct_keys_mset [of scan1 ?o1 created_at] d1 by (simp add: mset_order_by_desc)
    with s1 have sp: "spec_ordered ?o1" by (rule strict_desc_spec_ordered)
    show "\<exists>ord. mset ord = mset (photos w) \<and> spec_ordered ord \<and>
           (\<forall>ps. body (GET_photos q scan1) = Photos ps \<longrightarrow>
              (\<exists>k. ps = map to_json (take k ord))) \<and>
           (\<forall>extra. select_extra max_photos scan2 = Inr extra \<longrightarrow>
              (\<exists>k. extra = drop k ord))"
    proof (intro exI [of _ ?o1] conjI allI impI)
      show "mset ?o1 = mset (photos w)" by (simp add: mset_order_by_desc assms(1))
      show "spec_ordered ?o1" by (rule sp)
    next
      fix ps assume "body (GET_photos q scan1) = Photos ps"
      then show "\<exists>k. ps = map to_json (take k ?o1)" by (rule GET_photos_rows)
    next
      fix extra assume "select_extra max_photos scan2 = Inr extra"
      then show "\<exists>k. extra = drop k ?o1" unfolding e by (rule select_extra_rows)
    qed
  next
    assume ds: "distinct (map sqlite_key (photos w))"
    have ds1: "distinct (map sqlite_key scan1)"
      using distinct_keys_mset [OF assms(1) [symmetric] ds] .
    have l1: "order_by_desc sqlite_key scan1 = ?o1"
      using refl ds1 by (rule order_by_desc_sqlite_key)
    have l2: "order_by_desc sqlite_key scan2 = ?o1"
      using m [symmetric] ds1 by (rule order_by_desc_sqlite_key)
    have "distinct (map created_at scan1)" using ds1 by (rule distinct_sqlite_key)
    then have "distinct (map created_at ?o1)"
      using distinct_keys_mset [of scan1 ?o1 created_at] by (simp add: mset_order_by_desc)
    with s1 have sp: "spec_ordered ?o1" by (rule strict_desc_spec_ordered)
    show "\<exists>ord. mset ord = mset (photos w) \<and> spec_ordered ord \<and>
           (\<forall>ps. body (GET_photos_sqlite q scan1) = Photos ps \<longrightarrow>
              (\<exists>k. ps = map to_json (take k ord))) \<and>
           (\<forall>rows. select_extra_sqlite max_photos scan2 = Inr rows \<longrightarrow>
              (\<exists>k n. rows = take n (drop k ord)))"
    proof (intro exI [of _ ?o1] conjI allI impI)
      show "mset ?o1 = mset (photos w)" by (simp add: mset_order_by_desc assms(1))
      show "spec_ordered ?o1" by (rule sp)
    next
      fix ps assume "body (GET_photos_sqlite q scan1) = Photos ps"
      then show "\<exists>k. ps = map to_json (take k ?o1)"
        unfolding l1 [symmetric] by (rule GET_photos_sqlite_rows)
    next
      fix rows assume "select_extra_sqlite max_photos scan2 = Inr rows"
      then show "\<exists>k n. rows = take n (drop k ?o1)"
        unfolding l2 [symmetric] by (rule select_extra_sqlite_rows)
    qed
  qed
qed

lemmas listing_defs =
  GET_photos_def GET_photos_sqlite_def photos_limit_def or_default_def parse_defs
  pg_limit_def pg_count_def sqlite_limit_def sqlite_integer_def bigint_max_def
  order_by_desc_def row_def sqlite_key_def datetime_def

theorem C1_witness:
  "mset [row ''a'' 1000, row ''b'' 2000] =
     mset (photos (empty_world\<lparr>photos := [row ''a'' 1000, row ''b'' 2000]\<rparr>)) \<and>
   mset [row ''b'' 2000, row ''a'' 1000] =
     mset (photos (empty_world\<lparr>photos := [row ''a'' 1000, row ''b'' 2000]\<rparr>)) \<and>
   distinct (map created_at (photos (empty_world\<lparr>photos := [row ''a'' 1000, row ''b'' 2000]\<rparr>))) \<and>
   GET_photos (Some (ascii ''10'')) [row ''a'' 1000, row ''b'' 2000] =
     \<lparr>status = 200, body = Photos [to_json (row ''b'' 2000), to_json (row ''a'' 1000)]\<rparr> \<and>
   GET_photos (Some (ascii ''10'')) [row ''a'' 1000, row ''b'' 2000] =
     GET_photos (Some (ascii ''10'')) [row ''b'' 2000, row ''a'' 1000] \<and>
   sorted_wrt (\<lambda>a b. json_createdAt b \<le> json_createdAt a)
     [to_json (row ''b'' 2000), to_json (row ''a'' 1000)] \<and>
   select_extra (Num 1) [row ''b'' 2000, row ''a'' 1000] = Inr [row ''a'' 1000] \<and>
   enforceMaxPhotos (Num 1) no_failure [row ''a'' 1000, row ''b'' 2000]
     (empty_world\<lparr>photos := [row ''a'' 1000, row ''b'' 2000]\<rparr>) =
   enforceMaxPhotos (Num 1) no_failure [row ''b'' 2000, row ''a'' 1000]
     (empty_world\<lparr>photos := [row ''a'' 1000, row ''b'' 2000]\<rparr>) \<and>
   distinct (map sqlite_key (photos (empty_world\<lparr>photos := [row ''a'' 1000, row ''b'' 2000]\<rparr>))) \<and>
   spec_ordered [row ''b'' 2000, row ''a'' 1000] \<and>
   GET_photos_sqlite (Some (ascii ''10'')) [row ''a'' 1000, row ''b'' 2000] =
     \<lparr>status = 200, body = Photos [to_json (row ''b'' 2000), to_json (row ''a'' 1000)]\<rparr> \<and>
   select_extra_sqlite (Num 1) [row ''b'' 2000, row ''a'' 1000] = Inr [row ''a'' 1000]"
proof -
  let ?w = "empty_world\<lparr>photos := [row ''a'' 1000, row ''b'' 2000]\<rparr>"
  have m1: "mset [row ''a'' 1000, row ''b'' 2000] = mset (photos ?w)"
    and m2: "mset [row ''b'' 2000, row ''a'' 1000] = mset (photos ?w)"
    by simp_all
  have d: "distinct (map created_at (photos ?w))" by (simp add: row_def)
  have g: "GET_photos (Some (ascii ''10'')) [row ''a'' 1000, row ''b'' 2000] =
     \<lparr>status = 200, body = Photos [to_json (row ''b'' 2000), to_json (row ''a'' 1000)]\<rparr>"
    by (simp add: listing_defs)
  have x: "select_extra (Num 1) [row ''b'' 2000, row ''a'' 1000] = Inr [row ''a'' 1000]"
    by (simp add: select_extra_def pg_offset_def pg_count_def bigint_max_def order_by_desc_def
        row_def)
  have ds: "distinct (map sqlite_key (photos ?w))"
    by (simp add: row_def sqlite_key_def datetime_def)
  have sp: "spec_ordered [row ''b'' 2000, row ''a'' 1000]"
    by (simp add: spec_ordered_def spec_before_def row_def)
  have gs: "GET_photos_sqlite (Some (ascii ''10'')) [row ''a'' 1000, row ''b'' 2000] =
     \<lparr>status = 200, body = Photos [to_json (row ''b'' 2000), to_json (row ''a'' 1000)]\<rparr>"
    by (simp add: listing_defs)
  have xs: "select_extra_sqlite (Num 1) [row ''b'' 2000, row ''a'' 1000] = Inr [row ''a'' 1000]"
    by (simp add: select_extra_sqlite_def sqlite_offset_def sqlite_limit_def sqlite_integer_def
        bigint_max_def order_by_desc_def sqlite_key_def datetime_def row_def)
  note t = C1_created_at_only [OF m1 m2, where q = "Some (ascii ''10'')" and max_photos = "Num 1"
      and fails = no_failure]
  from t d have "GET_photos (Some (ascii ''10'')) [row ''a'' 1000, row ''b'' 2000] =
      GET_photos (Some (ascii ''10'')) [row ''b'' 2000, row ''a'' 1000]"
    and "enforceMaxPhotos (Num 1) no_failure [row ''a'' 1000, row ''b'' 2000] ?w =
      enforceMaxPhotos (Num 1) no_failure [row ''b'' 2000, row ''a'' 1000] ?w"
    by blast+
  moreover from t g have "sorted_wrt (\<lambda>a b. json_createdAt b \<le> json_createdAt a)
     [to_json (row ''b'' 2000), to_json (row ''a'' 1000)]"
    by simp
  ultimately show ?thesis using m1 m2 d g x ds sp gs xs by (intro conjI)
qed

text \<open>
  C1 as stated fails on two photos \<open>a\<close> and \<open>b\<close> with one time stamp. Met in the order
  \<open>a\<close>, \<open>b\<close>, the order of their insertion, the listing of \<^verbatim>\<open>server.js\<close> shows \<open>a\<close>
  before \<open>b\<close>, against \<^verbatim>\<open>id DESC\<close>, and with room for one photo the run evicts \<open>b\<close>, where
  the order of the specification evicts \<open>a\<close>. Met in the order \<open>b\<close>, \<open>a\<close>, the run evicts
  \<open>a\<close>: the catalog alone does not determine the eviction.
\<close>

theorem C1_counterexample:
  "mset [row ''b'' 5, row ''a'' 5] = mset [row ''a'' 5, row ''b'' 5] \<and>
   GET_photos (Some (ascii ''10'')) [row ''a'' 5, row ''b'' 5] =
     \<lparr>status = 200, body = Photos [to_json (row ''a'' 5), to_json (row ''b'' 5)]\<rparr> \<and>
   \<not> spec_ordered [row ''a'' 5, row ''b'' 5] \<and>
   spec_ordered [row ''b'' 5, row ''a'' 5] \<and>
   select_extra (Num 1) [row ''a'' 5, row ''b'' 5] = Inr [row ''b'' 5] \<and>
   select_extra (Num 1) [row ''b'' 5, row ''a'' 5] = Inr [row ''a'' 5] \<and>
   photos (enforce_detached (Num 1) no_failure [row ''a'' 5, row ''b'' 5]
     (empty_world\<lparr>photos := [row ''a'' 5, row ''b'' 5]\<rparr>)) = [row ''a'' 5] \<and>
   photos (enforce_detached (Num 1) no_failure [row ''b'' 5, row ''a'' 5]
     (empty_world\<lparr>photos := [row ''a'' 5, row ''b'' 5]\<rparr>)) = [row ''b'' 5]"
proof (intro conjI)
  show "mset [row ''b'' 5, row ''a'' 5] = mset [row ''a'' 5, row ''b'' 5]" by simp
  show "GET_photos (Some (ascii ''10'')) [row ''a'' 5, row ''b'' 5] =
     \<lparr>status = 200, body = Photos [to_json (row ''a'' 5), to_json (row ''b'' 5)]\<rparr>"
    by (simp add: listing_defs)
  show "\<not> spec_ordered [row ''a'' 5, row ''b'' 5]"
    by (simp add: spec_ordered_def spec_before_def row_def)
  show "spec_ordered [row ''b'' 5, row ''a'' 5]"
    by (simp add: spec_ordered_def spec_before_def row_def)
  show "select_extra (Num 1) [row ''a'' 5, row ''b'' 5] = Inr [row ''b'' 5]"
    by (simp add: select_extra_def pg_offset_def pg_count_def bigint_max_def order_by_desc_def
        row_def)
  show "select_extra (Num 1) [row ''b'' 5, row ''a'' 5] = Inr [row ''a'' 5]"
    by (simp add: select_extra_def pg_offset_def pg_count_def bigint_max_def order_by_desc_def
        row_def)
  show "photos (enforce_detached (Num 1) no_failure [row ''a'' 5, row ''b'' 5]
     (empty_world\<lparr>photos := [row ''a'' 5, row ''b'' 5]\<rparr>)) = [row ''a'' 5]"
    by (simp add: enforce_detached_def enforceMaxPhotos_def select_extra_def pg_offset_def
        pg_count_def bigint_max_def order_by_desc_def destroy_catch_def destroy_def
        no_failure_def row_def)
  show "photos (enforce_detached (Num 1) no_failure [row ''b'' 5, row ''a'' 5]
     (empty_world\<lparr>photos := [row ''a'' 5, row ''b'' 5]\<rparr>)) = [row ''b'' 5]"
    by (simp add: enforce_detached_def enforceMaxPhotos_def select_extra_def pg_offset_def
        pg_count_def bigint_max_def order_by_desc_def destroy_catch_def destroy_def
        no_failure_def row_def)
qed

subsection \<open>Listings with consecutive limits\<close>

lemma take_min_length:
  assumes "min a (length xs) = min b (length xs)"
  shows "take a xs = take b xs"
proof -
  have "take n xs = take (min n (length xs)) xs" for n
    by (simp add: min_def)
  from this [of a] this [of b] assms show ?thesis by simp
qed

lemma photos_limit_nat:
  assumes "parseInt s = Num (round_double (int k))"
  shows "photos_limit (Some s) = Num (int (min k 2000))"
proof -
  have "min (round_double (int k)) 2000 = int (min k 2000)"
    by (simp add: min_round_double)
  then show ?thesis
    using photos_limit_parsed [OF assms] by simp
qed

text \<open>The listing for a limit that reads as the count \<open>k\<close>.\<close>

lemma GET_photos_nat:
  assumes "parseInt s = Num (round_double (int k))"
  shows "GET_photos (Some s) scan =
           \<lparr>status = 200,
            body = Photos (map to_json (take (min k 2000) (order_by_desc created_at scan)))\<rparr>"
  using photos_limit_nat [OF assms]
  by (simp add: GET_photos_def pg_limit_nat bigint_max_def)

text \<open>
  On a catalog without two rows of one second, the SQLite variant lists what
  \<^verbatim>\<open>server.js\<close> lists when the limit is a number that is not negative.
\<close>

lemma GET_photos_same:
  assumes "mset scan' = mset scan" "distinct (map sqlite_key scan)"
    "photos_limit q = Num v" "0 \<le> v"
  shows "GET_photos_sqlite q scan' = GET_photos q scan"
proof -
  have "v \<le> 2000"
    using assms(3) by (cases "parseInt (or_default q (ascii ''800''))")
      (auto simp: photos_limit_def)
  with assms(4) have "pg_limit (Num v) xs = Inr (take (nat v) xs)"
    "sqlite_limit (Num v) xs = Inr (take (nat v) xs)" for xs :: "photo list"
    by (simp_all add: pg_limit_def pg_count_def sqlite_limit_def sqlite_integer_def
        bigint_max_def)
  then show ?thesis
    by (simp add: GET_photos_def GET_photos_sqlite_def assms(3)
        order_by_desc_sqlite_key [OF assms(1,2)])
qed

lemma prefix_keys:
  assumes "map key o1 = map key o2" "length o2 = n"
  shows "map key (take (min k 2000) o1) = take (min k n) (map key (take (min (Suc k) 2000) o2))"
proof -
  have "min (min k 2000) (length (map key o2)) =
      min (min (min k n) (min (Suc k) 2000)) (length (map key o2))"
    using assms(2) by auto
  then have e: "take (min k 2000) (map key o2) =
      take (min (min k n) (min (Suc k) 2000)) (map key o2)"
    by (rule take_min_length)
  have "map key (take (min k 2000) o1) = take (min k 2000) (map key o1)"
    by (simp only: take_map)
  also have "\<dots> = take (min k 2000) (map key o2)"
    by (simp only: assms(1))
  also note e
  also have "take (min (min k n) (min (Suc k) 2000)) (map key o2) =
      take (min k n) (map key (take (min (Suc k) 2000) o2))"
    by (simp only: take_map take_take)
  finally show ?thesis .
qed

text \<open>
  C4, as amended. In \<^verbatim>\<open>server.js\<close>, for a catalog and limits that read as the counts \<open>k\<close>
  and \<open>k + 1\<close>, both listings answer 200, and the time stamps of the first are the first
  \<open>min k size\<close> of those of the second, whatever the order in which the engine meets the
  rows for either. The rows themselves are that prefix when no two rows of the catalog
  have the same time stamp; in the SQLite variant they are when no two rows of the
  catalog were created within the same second.
\<close>

theorem C4_prefix_of_next_limit:
  assumes "mset scan1 = mset (photos w)" "mset scan2 = mset (photos w)"
    "parseInt s1 = Num (round_double (int k))" "parseInt s2 = Num (round_double (int k + 1))"
  shows
    "\<exists>ps1 ps2.
       GET_photos (Some s1) scan1 = \<lparr>status = 200, body = Photos ps1\<rparr> \<and>
       GET_photos (Some s2) scan2 = \<lparr>status = 200, body = Photos ps2\<rparr> \<and>
       map json_createdAt ps1 = take (min k (length (photos w))) (map json_createdAt ps2) \<and>
       (distinct (map created_at (photos w)) \<longrightarrow> ps1 = take (min k (length (photos w))) ps2) \<and>
       (distinct (map sqlite_key (photos w)) \<longrightarrow>
          GET_photos_sqlite (Some s1) scan1 = \<lparr>status = 200, body = Photos ps1\<rparr> \<and>
          GET_photos_sqlite (Some s2) scan2 = \<lparr>status = 200, body = Photos ps2\<rparr> \<and>
          ps1 = take (min k (length (photos w))) ps2)"
proof -
  let ?o1 = "order_by_desc created_at scan1" and ?o2 = "order_by_desc created_at scan2"
  let ?n1 = "min k 2000" and ?n2 = "min (Suc k) 2000"
  let ?ps1 = "map to_json (take ?n1 ?o1)" and ?ps2 = "map to_json (take ?n2 ?o2)"
  have m: "mset scan1 = mset scan2" using assms(1,2) by simp
  have "int (Suc k) = int k + 1" by simp
  then have s2: "parseInt s2 = Num (round_double (int (Suc k)))"
    using assms(4) by (simp only:)
  have len: "length ?o2 = length (photos w)"
    using mset_eq_length [OF assms(2)] by (simp add: length_order_by_desc)
  have keys: "map created_at ?o1 = map created_at ?o2"
    using m by (rule order_by_desc_keys)
  have a: "map json_createdAt ?ps1 = take (min k (length (photos w))) (map json_createdAt ?ps2)"
    using prefix_keys [OF keys len, of k] by (simp only: map_json_createdAt)
  have c: "?ps1 = take (min k (length (photos w))) ?ps2" if "distinct (map created_at (photos w))"
  proof -
    have "distinct (map created_at scan1)"
      using distinct_keys_mset [OF assms(1) [symmetric] that] .
    with m have e: "?o1 = ?o2" by (rule order_by_desc_unique)
    have "map to_json (take ?n1 ?o2) =
        take (min k (length (photos w))) (map to_json (take ?n2 ?o2))"
      using refl len by (rule prefix_keys)
    then show ?thesis by (simp only: e)
  qed
  have g1: "GET_photos (Some s1) scan1 = \<lparr>status = 200, body = Photos ?ps1\<rparr>"
    using assms(3) by (rule GET_photos_nat)
  have g2: "GET_photos (Some s2) scan2 = \<lparr>status = 200, body = Photos ?ps2\<rparr>"
    using s2 by (rule GET_photos_nat)
  have l: "GET_photos_sqlite (Some s) scan = GET_photos (Some s) scan"
    if "distinct (map sqlite_key (photos w))" "mset scan = mset (photos w)"
      "parseInt s = Num (round_double (int n))" for s scan n
  proof -
    have "distinct (map sqlite_key scan)"
      using distinct_keys_mset [OF that(2) [symmetric] that(1)] .
    moreover have "(0 :: int) \<le> int (min n 2000)" by simp
    ultimately show ?thesis
      using refl photos_limit_nat [OF that(3)] by (intro GET_photos_same [of scan scan])
  qed
  show ?thesis
  proof (rule exI [of _ ?ps1], rule exI [of _ ?ps2], intro conjI impI)
    show "GET_photos (Some s1) scan1 = \<lparr>status = 200, body = Photos ?ps1\<rparr>"
      by (rule g1)
    show "GET_photos (Some s2) scan2 = \<lparr>status = 200, body = Photos ?ps2\<rparr>"
      by (rule g2)
    show "GET_photos_sqlite (Some s1) scan1 = \<lparr>status = 200, body = Photos ?ps1\<rparr>"
      if "distinct (map sqlite_key (photos w))"
      using l [OF that assms(1,3)] g1 by (simp only:)
    show "GET_photos_sqlite (Some s2) scan2 = \<lparr>status = 200, body = Photos ?ps2\<rparr>"
      if "distinct (map sqlite_key (photos w))"
      using l [OF that assms(2) s2] g2 by (simp only:)
    show "?ps1 = take (min k (length (photos w))) ?ps2"
      if "distinct (map sqlite_key (photos w))"
      using that by (intro c distinct_sqlite_key)
    show "map json_createdAt ?ps1 = take (min k (length (photos w))) (map json_createdAt ?ps2)"
      by (rule a)
    show "?ps1 = take (min k (length (photos w))) ?ps2" if "distinct (map created_at (photos w))"
      using that by (rule c)
  qed
qed

theorem C4_witness:
  "mset [row ''a'' 1000, row ''b'' 2000] =
     mset (photos (empty_world\<lparr>photos := [row ''a'' 1000, row ''b'' 2000]\<rparr>)) \<and>
   mset [row ''b'' 2000, row ''a'' 1000] =
     mset (photos (empty_world\<lparr>photos := [row ''a'' 1000, row ''b'' 2000]\<rparr>)) \<and>
   parseInt (ascii ''1'') = Num (round_double (int 1)) \<and>
   parseInt (ascii ''2'') = Num (round_double (int 1 + 1)) \<and>
   distinct (map created_at (photos (empty_world\<lparr>photos := [row ''a'' 1000, row ''b'' 2000]\<rparr>))) \<and>
   GET_photos (Some (ascii ''1'')) [row ''a'' 1000, row ''b'' 2000] =
     \<lparr>status = 200, body = Photos [to_json (row ''b'' 2000)]\<rparr> \<and>
   GET_photos (Some (ascii ''2'')) [row ''b'' 2000, row ''a'' 1000] =
     \<lparr>status = 200, body = Photos [to_json (row ''b'' 2000), to_json (row ''a'' 1000)]\<rparr> \<and>
   [to_json (row ''b'' 2000)] =
     take (min 1 (length (photos (empty_world\<lparr>photos := [row ''a'' 1000, row ''b'' 2000]\<rparr>))))
       [to_json (row ''b'' 2000), to_json (row ''a'' 1000)] \<and>
   distinct (map sqlite_key (photos (empty_world\<lparr>photos := [row ''a'' 1000, row ''b'' 2000]\<rparr>))) \<and>
   GET_photos_sqlite (Some (ascii ''1'')) [row ''a'' 1000, row ''b'' 2000] =
     \<lparr>status = 200, body = Photos [to_json (row ''b'' 2000)]\<rparr> \<and>
   GET_photos_sqlite (Some (ascii ''2'')) [row ''b'' 2000, row ''a'' 1000] =
     \<lparr>status = 200, body = Photos [to_json (row ''b'' 2000), to_json (row ''a'' 1000)]\<rparr>"
proof -
  let ?w = "empty_world\<lparr>photos := [row ''a'' 1000, row ''b'' 2000]\<rparr>"
  have m1: "mset [row ''a'' 1000, row ''b'' 2000] = mset (photos ?w)"
    and m2: "mset [row ''b'' 2000, row ''a'' 1000] = mset (photos ?w)"
    by simp_all
  have n1: "parseInt (ascii ''1'') = Num (round_double (int 1))"
    and n2: "parseInt (ascii ''2'') = Num (round_double (int 1 + 1))"
    by (simp_all add: parse_defs)
  have d: "distinct (map created_at (photos ?w))" by (simp add: row_def)
  have g1: "GET_photos (Some (ascii ''1'')) [row ''a'' 1000, row ''b'' 2000] =
     \<lparr>status = 200, body = Photos [to_json (row ''b'' 2000)]\<rparr>"
    by (simp add: listing_defs)
  have g2: "GET_photos (Some (ascii ''2'')) [row ''b'' 2000, row ''a'' 1000] =
     \<lparr>status = 200, body = Photos [to_json (row ''b'' 2000), to_json (row ''a'' 1000)]\<rparr>"
    by (simp add: listing_defs)
  have ds: "distinct (map sqlite_key (photos ?w))"
    by (simp add: row_def sqlite_key_def datetime_def)
  from C4_prefix_of_next_limit [OF m1 m2 n1 n2] d ds
  obtain ps1 ps2 where
    p1: "GET_photos (Some (ascii ''1'')) [row ''a'' 1000, row ''b'' 2000] =
       \<lparr>status = 200, body = Photos ps1\<rparr>" and
    p2: "GET_photos (Some (ascii ''2'')) [row ''b'' 2000, row ''a'' 1000] =
       \<lparr>status = 200, body = Photos ps2\<rparr>" and
    p3: "ps1 = take (min 1 (length (photos ?w))) ps2" and
    p4: "GET_photos_sqlite (Some (ascii ''1'')) [row ''a'' 1000, row ''b'' 2000] =
       \<lparr>status = 200, body = Photos ps1\<rparr>" and
    p5: "GET_photos_sqlite (Some (ascii ''2'')) [row ''b'' 2000, row ''a'' 1000] =
       \<lparr>status = 200, body = Photos ps2\<rparr>"
    by blast
  from p1 g1 have e1: "ps1 = [to_json (row ''b'' 2000)]" by simp
  from p2 g2 have e2: "ps2 = [to_json (row ''b'' 2000), to_json (row ''a'' 1000)]" by simp
  from p3 have t: "[to_json (row ''b'' 2000)] =
     take (min 1 (length (photos ?w))) [to_json (row ''b'' 2000), to_json (row ''a'' 1000)]"
    unfolding e1 e2 .
  from p4 have l1: "GET_photos_sqlite (Some (ascii ''1'')) [row ''a'' 1000, row ''b'' 2000] =
     \<lparr>status = 200, body = Photos [to_json (row ''b'' 2000)]\<rparr>"
    unfolding e1 .
  from p5 have l2: "GET_photos_sqlite (Some (ascii ''2'')) [row ''b'' 2000, row ''a'' 1000] =
     \<lparr>status = 200, body = Photos [to_json (row ''b'' 2000), to_json (row ''a'' 1000)]\<rparr>"
    unfolding e2 .
  from m1 m2 n1 n2 d g1 g2 t ds l1 l2 show ?thesis by (intro conjI)
qed

text \<open>
  C4 as stated fails on six photos with one time stamp, inserted as \<open>a\<close> to \<open>f\<close>. A table
  this small Postgres sorts rather than read it through the index, and it keeps the rows
  of a listing with a \<^verbatim>\<open>LIMIT\<close> in a heap of that size, which passes rows with equal keys
  on in an order that depends on the size: \<open>a\<close> first under \<^verbatim>\<open>LIMIT 1\<close>, \<open>b\<close> first under
  \<^verbatim>\<open>LIMIT 2\<close>. So the listing with limit 1 holds \<open>a\<close>, the listing with limit 2 holds
  \<open>b\<close>, then \<open>a\<close>, and the first is no prefix of the second.
\<close>

theorem C4_counterexample:
  "mset (burst [''b'', ''a'', ''c'', ''d'', ''e'', ''f''] 1700000000000) =
     mset (burst [''a'', ''b'', ''c'', ''d'', ''e'', ''f''] 1700000000000) \<and>
   GET_photos (Some (ascii ''1'')) (burst [''a'', ''b'', ''c'', ''d'', ''e'', ''f''] 1700000000000) =
     \<lparr>status = 200, body = Photos [to_json (row ''a'' 1700000000000)]\<rparr> \<and>
   GET_photos (Some (ascii ''2'')) (burst [''b'', ''a'', ''c'', ''d'', ''e'', ''f''] 1700000000000) =
     \<lparr>status = 200,
      body = Photos [to_json (row ''b'' 1700000000000), to_json (row ''a'' 1700000000000)]\<rparr> \<and>
   [to_json (row ''a'' 1700000000000)] \<noteq>
     take (min 1 (length (burst [''a'', ''b'', ''c'', ''d'', ''e'', ''f''] 1700000000000)))
       [to_json (row ''b'' 1700000000000), to_json (row ''a'' 1700000000000)]"
proof (intro conjI)
  show "mset (burst [''b'', ''a'', ''c'', ''d'', ''e'', ''f''] 1700000000000) =
     mset (burst [''a'', ''b'', ''c'', ''d'', ''e'', ''f''] 1700000000000)"
    by (simp add: burst_def)
  show "GET_photos (Some (ascii ''1'')) (burst [''a'', ''b'', ''c'', ''d'', ''e'', ''f''] 1700000000000) =
     \<lparr>status = 200, body = Photos [to_json (row ''a'' 1700000000000)]\<rparr>"
    by (simp add: burst_def listing_defs)
  show "GET_photos (Some (ascii ''2'')) (burst [''b'', ''a'', ''c'', ''d'', ''e'', ''f''] 1700000000000) =
     \<lparr>status = 200,
      body = Photos [to_json (row ''b'' 1700000000000), to_json (row ''a'' 1700000000000)]\<rparr>"
    by (simp add: burst_def listing_defs)
  show "[to_json (row ''a'' 1700000000000)] \<noteq>
     take (min 1 (length (burst [''a'', ''b'', ''c'', ''d'', ''e'', ''f''] 1700000000000)))
       [to_json (row ''b'' 1700000000000), to_json (row ''a'' 1700000000000)]"
    by (simp add: burst_def to_json_def row_def)
qed

subsection \<open>Deleting a photo\<close>

lemma filter_id_empty:
  "i \<notin> set (map photo_id rows) \<Longrightarrow> filter (\<lambda>r. photo_id r = i) rows = []"
  by (induction rows) auto

lemma photos_destroy_catch: "photos (destroy_catch fails pid w) = photos w"
  by (simp add: destroy_catch_def destroy_def Let_def)

lemma photos_sseSend: "photos (sseSend ev w) = photos w"
  by (simp add: sseSend_def)

lemma find_first_row:
  "find P rows = (case filter P rows of [] \<Rightarrow> None | r # rs \<Rightarrow> Some r)"
  by (induction rows) simp_all

text \<open>The first of the selected rows is the row that \<^verbatim>\<open>db.get\<close> returns.\<close>

lemma DELETE_photo_sqlite_eq: "DELETE_photo_sqlite = DELETE_photo"
  by (intro ext)
     (simp add: DELETE_photo_sqlite_def DELETE_photo_def find_first_row split: list.split)

lemma DELETE_photo_authorized:
  "DELETE_photo k fails (Some k) i w =
     (if i \<in> set (map photo_id (photos w))
      then (\<lparr>status = 200, body = Deleted ''Photo deleted successfully'' i\<rparr>,
            sseSend (Photo_deleted i)
              ((destroy_catch fails
                  (public_id (hd (filter (\<lambda>r. photo_id r = i) (photos w)))) w)
                 \<lparr>photos := filter (\<lambda>r. photo_id r \<noteq> i) (photos w)\<rparr>))
      else (\<lparr>status = 404, body = Message ''Photo not found''\<rparr>, w))"
proof (cases "filter (\<lambda>r. photo_id r = i) (photos w)")
  case Nil
  then have "i \<notin> set (map photo_id (photos w))"
    by (auto simp: filter_empty_conv)
  with Nil show ?thesis by (simp add: DELETE_photo_def)
next
  case (Cons r rs)
  then have "r \<in> set (filter (\<lambda>r. photo_id r = i) (photos w))" by simp
  then have "i \<in> set (map photo_id (photos w))" by auto
  with Cons show ?thesis
    by (simp add: DELETE_photo_def Let_def photos_destroy_catch)
qed

text \<open>
  C6: an authorized \<^verbatim>\<open>DELETE /photos/:id\<close> for an identifier that no row of the catalog
  has answers 404 and leaves the whole state as it was: the table, the objects in
  Cloudinary, the list of \<^verbatim>\<open>destroy\<close> calls (none was issued) and the event streams. Both
  variants.
\<close>

theorem C6_delete_unknown_id:
  assumes "i \<notin> set (map photo_id (photos w))"
  shows "DELETE_photo k fails (Some k) i w =
           (\<lparr>status = 404, body = Message ''Photo not found''\<rparr>, w) \<and>
         DELETE_photo_sqlite k fails (Some k) i w =
           (\<lparr>status = 404, body = Message ''Photo not found''\<rparr>, w)"
  using filter_id_empty [OF assms]
  by (simp add: DELETE_photo_def DELETE_photo_sqlite_def find_first_row)

theorem C6_witness:
  "''b'' \<notin> set (map photo_id (photos (empty_world\<lparr>photos := [row ''a'' 1], blobs := [''memorial_wall/a'']\<rparr>))) \<and>
   DELETE_photo ''12345'' no_failure (Some ''12345'') ''b''
       (empty_world\<lparr>photos := [row ''a'' 1], blobs := [''memorial_wall/a'']\<rparr>) =
     (\<lparr>status = 404, body = Message ''Photo not found''\<rparr>,
      empty_world\<lparr>photos := [row ''a'' 1], blobs := [''memorial_wall/a'']\<rparr>)"
proof -
  have h: "''b'' \<notin> set (map photo_id
      (photos (empty_world\<lparr>photos := [row ''a'' 1], blobs := [''memorial_wall/a'']\<rparr>)))"
    by (simp add: row_def)
  from C6_delete_unknown_id [OF h, of "''12345''" no_failure] h show ?thesis by simp
qed

text \<open>
  C9: with the environment variable \<^verbatim>\<open>ADMIN_KEY\<close> unset the constant is \<^verbatim>\<open>"12345"\<close>, and
  a request with the header \<^verbatim>\<open>x-admin-key: 12345\<close> is not answered 403: it deletes the
  row when the identifier is in the catalog. Both variants.
\<close>

theorem C9_fallback_admin_key:
  "ADMIN_KEY None = ''12345'' \<and>
   status (fst (DELETE_photo (ADMIN_KEY None) fails (Some ''12345'') i w)) \<noteq> 403 \<and>
   status (fst (DELETE_photo_sqlite (ADMIN_KEY None) fails (Some ''12345'') i w)) \<noteq> 403 \<and>
   (i \<in> set (map photo_id (photos w)) \<longrightarrow>
      status (fst (DELETE_photo (ADMIN_KEY None) fails (Some ''12345'') i w)) = 200 \<and>
      i \<notin> set (map photo_id
        (photos (snd (DELETE_photo (ADMIN_KEY None) fails (Some ''12345'') i w)))) \<and>
      status (fst (DELETE_photo_sqlite (ADMIN_KEY None) fails (Some ''12345'') i w)) = 200 \<and>
      i \<notin> set (map photo_id
        (photos (snd (DELETE_photo_sqlite (ADMIN_KEY None) fails (Some ''12345'') i w)))))"
  by (auto simp: ADMIN_KEY_unset DELETE_photo_sqlite_eq DELETE_photo_authorized photos_sseSend)

theorem C9_witness:
  "''a'' \<in> set (map photo_id (photos (empty_world\<lparr>photos := [row ''a'' 1]\<rparr>))) \<and>
   status (fst (DELETE_photo (ADMIN_KEY None) no_failure (Some ''12345'') ''a''
     (empty_world\<lparr>photos := [row ''a'' 1]\<rparr>))) = 200 \<and>
   photos (snd (DELETE_photo (ADMIN_KEY None) no_failure (Some ''12345'') ''a''
     (empty_world\<lparr>photos := [row ''a'' 1]\<rparr>))) = []"
proof -
  have h: "''a'' \<in> set (map photo_id (photos (empty_world\<lparr>photos := [row ''a'' 1]\<rparr>)))"
    by (simp add: row_def)
  have "photos (snd (DELETE_photo (ADMIN_KEY None) no_failure (Some ''12345'') ''a''
     (empty_world\<lparr>photos := [row ''a'' 1]\<rparr>))) = []"
    by (simp add: ADMIN_KEY_unset DELETE_photo_authorized photos_sseSend row_def)
  with C9_fallback_admin_key [of no_failure "''a''" "empty_world\<lparr>photos := [row ''a'' 1]\<rparr>"] h
  show ?thesis by (simp add: ADMIN_KEY_unset)
qed

subsection \<open>The event channel\<close>

lemma received_sseSend:
  assumes "distinct (sseClients w)"
  shows "received h (sseSend ev w) =
           (if h \<in> set (sseClients w) then received h w @ [ev] else received h w)"
proof -
  have "map snd (filter (\<lambda>x. fst x = h) (map (\<lambda>res. (res, ev)) cs)) =
          (if h \<in> set cs then [ev] else [])" if "distinct cs" for cs
    using that by (induction cs) auto
  with assms show ?thesis by (simp add: received_def sseSend_def)
qed

lemma received_GET_events:
  "received h (GET_events res w) = (if h = res then received h w @ [Hello] else received h w)"
  by (simp add: received_def GET_events_def Let_def)

lemma received_on_close: "received h (on_close res w) = received h w"
  by (simp add: received_def on_close_def)

lemma sseClients_sseSend: "sseClients (sseSend ev w) = sseClients w"
  by (simp add: sseSend_def)

lemma sseClients_GET_events:
  "set (sseClients (GET_events res w)) = insert res (set (sseClients w))"
  by (auto simp: GET_events_def Let_def)

lemma distinct_GET_events:
  "distinct (sseClients w) \<Longrightarrow> distinct (sseClients (GET_events res w))"
  by (simp add: GET_events_def Let_def)

lemma sseClients_on_close:
  "set (sseClients (on_close res w)) = set (sseClients w) - {res}"
  by (auto simp: on_close_def)

lemma distinct_on_close:
  "distinct (sseClients w) \<Longrightarrow> distinct (sseClients (on_close res w))"
  by (simp add: on_close_def distinct_removeAll)

lemma distinct_sse_step:
  "distinct (sseClients w) \<Longrightarrow> distinct (sseClients (sse_step x w))"
  by (cases x) (simp_all add: sseClients_sseSend distinct_GET_events distinct_on_close)

lemma distinct_sse_run:
  "distinct (sseClients w) \<Longrightarrow> distinct (sseClients (sse_run ops w))"
  unfolding sse_run_def
  by (induction ops arbitrary: w) (simp_all add: distinct_sse_step)

lemma sse_run_Nil: "sse_run [] w = w"
  by (simp add: sse_run_def)

lemma sse_run_Cons: "sse_run (x # ops) w = sse_run ops (sse_step x w)"
  by (simp add: sse_run_def)

lemma sse_run_append: "sse_run (ops1 @ ops2) w = sse_run ops2 (sse_run ops1 w)"
  by (simp add: sse_run_def)

text \<open>A response that is not subscribed and is not connected is written nothing.\<close>

lemma not_subscribed:
  assumes "distinct (sseClients w)" "res \<notin> set (sseClients w)" "Connect res \<notin> set ops"
  shows "received res (sse_run ops w) = received res w \<and> res \<notin> set (sseClients (sse_run ops w))"
  using assms
proof (induction ops arbitrary: w)
  case Nil
  then show ?case by (simp add: sse_run_Nil)
next
  case (Cons x ops)
  have d: "distinct (sseClients (sse_step x w))"
    using Cons.prems(1) by (rule distinct_sse_step)
  have "received res (sse_step x w) = received res w \<and> res \<notin> set (sseClients (sse_step x w))"
    using Cons.prems
    by (cases x)
       (auto simp: received_sseSend sseClients_sseSend received_GET_events
                   sseClients_GET_events received_on_close sseClients_on_close)
  moreover have "Connect res \<notin> set ops" using Cons.prems(3) by simp
  ultimately show ?case
    using Cons.IH [OF d] by (simp add: sse_run_Cons)
qed

text \<open>A subscribed response is written every event published until it closes.\<close>

lemma subscribed:
  assumes "distinct (sseClients w)" "res \<in> set (sseClients w)"
    "Connect res \<notin> set ops" "Close res \<notin> set ops"
  shows "received res (sse_run ops w) = received res w @ published ops"
  using assms
proof (induction ops arbitrary: w)
  case Nil
  then show ?case by (simp add: sse_run_Nil)
next
  case (Cons x ops)
  have d: "distinct (sseClients (sse_step x w))"
    using Cons.prems(1) by (rule distinct_sse_step)
  have m: "res \<in> set (sseClients (sse_step x w))"
    using Cons.prems
    by (cases x) (auto simp: sseClients_sseSend sseClients_GET_events sseClients_on_close)
  have r: "received res (sse_step x w) @ published ops = received res w @ published (x # ops)"
    using Cons.prems
    by (cases x) (auto simp: received_sseSend received_GET_events received_on_close)
  have "Connect res \<notin> set ops" "Close res \<notin> set ops" using Cons.prems by simp_all
  from Cons.IH [OF d m this] r show ?case
    by (simp add: sse_run_Cons)
qed

text \<open>
  C7: a response that subscribes after events were published is written none of them. It
  is written its own hello frame and then, one by one and in order, the events published
  while it stays subscribed. And \<^verbatim>\<open>sseSend\<close> writes an event to the responses that are
  in \<^verbatim>\<open>sseClients\<close> at that moment, once each, and to no other.
\<close>

theorem C7_no_backlog:
  assumes "distinct (sseClients w)" "res \<notin> set (sseClients w)" "received res w = []"
    "Connect res \<notin> set before" "Connect res \<notin> set after" "Close res \<notin> set after"
  shows "received res (sse_run before w) = [] \<and>
         received res (sse_run (before @ Connect res # after) w) = Hello # published after \<and>
         (\<forall>h ev v. distinct (sseClients v) \<longrightarrow>
            received h (sseSend ev v) =
              (if h \<in> set (sseClients v) then received h v @ [ev] else received h v))"
proof -
  let ?w1 = "sse_run before w"
  have b: "received res ?w1 = [] \<and> res \<notin> set (sseClients ?w1)"
    using not_subscribed [OF assms(1,2,4)] assms(3) by simp
  have d1: "distinct (sseClients ?w1)" using assms(1) by (rule distinct_sse_run)
  let ?w2 = "GET_events res ?w1"
  have d2: "distinct (sseClients ?w2)" using d1 by (rule distinct_GET_events)
  have m2: "res \<in> set (sseClients ?w2)" by (simp add: sseClients_GET_events)
  have r2: "received res ?w2 = [Hello]" using b by (simp add: received_GET_events)
  have "received res (sse_run after ?w2) = [Hello] @ published after"
    using subscribed [OF d2 m2 assms(5,6)] r2 by simp
  then have "received res (sse_run (before @ Connect res # after) w) = Hello # published after"
    by (simp add: sse_run_append sse_run_Cons)
  with b show ?thesis by (simp add: received_sseSend)
qed

theorem C7_witness:
  "received 1
     (sse_run ([Connect 0, Publish (Photo_deleted ''x''), Publish (Photo_deleted ''y'')] @
               Connect 1 # [Publish (Photo_deleted ''z''), Close 0, Publish (Photo_deleted ''u'')])
        empty_world) =
     [Hello, Photo_deleted ''z'', Photo_deleted ''u''] \<and>
   received 1
     (sse_run [Connect 0, Publish (Photo_deleted ''x''), Publish (Photo_deleted ''y'')]
        empty_world) = []"
proof -
  have "distinct (sseClients empty_world)" "1 \<notin> set (sseClients empty_world)"
    "received 1 empty_world = []"
    by (simp_all add: empty_world_def received_def)
  from C7_no_backlog [OF this,
      of "[Connect 0, Publish (Photo_deleted ''x''), Publish (Photo_deleted ''y'')]"
         "[Publish (Photo_deleted ''z''), Close 0, Publish (Photo_deleted ''u'')]"]
  show ?thesis by simp
qed

subsection \<open>Capacity enforcement and Cloudinary failures\<close>

lemma destroy_catch_fields:
  "photos (destroy_catch fails pid w) = photos w"
  "sseClients (destroy_catch fails pid w) = sseClients w"
  "written (destroy_catch fails pid w) = written w"
  "destroy_calls (destroy_catch fails pid w) = destroy_calls w @ [pid]"
  "blobs (destroy_catch fails pid w) = (if fails pid then blobs w else removeAll pid (blobs w))"
  by (simp_all add: destroy_catch_def destroy_def Let_def)

lemma fold_destroy_catch:
  "photos (fold (destroy_catch fails) pids w) = photos w \<and>
   sseClients (fold (destroy_catch fails) pids w) = sseClients w \<and>
   written (fold (destroy_catch fails) pids w) = written w \<and>
   destroy_calls (fold (destroy_catch fails) pids w) = destroy_calls w @ pids \<and>
   blobs (fold (destroy_catch fails) pids w) =
     filter (\<lambda>b. b \<notin> set pids \<or> fails b) (blobs w)"
proof (induction pids arbitrary: w)
  case Nil
  show ?case by simp
next
  case (Cons pid pids)
  have "filter (\<lambda>b. b \<notin> set pids \<or> fails b) (removeAll pid bs) =
        filter (\<lambda>b. b \<notin> set (pid # pids) \<or> fails b) bs" if "\<not> fails pid" for bs
    using that by (induction bs) auto
  moreover have "filter (\<lambda>b. b \<notin> set pids \<or> fails b) bs =
        filter (\<lambda>b. b \<notin> set (pid # pids) \<or> fails b) bs" if "fails pid" for bs
    using that by (induction bs) auto
  ultimately show ?case
    using Cons.IH [of "destroy_catch fails pid w"]
    by (simp add: destroy_catch_fields)
qed

text \<open>
  Whatever \<^verbatim>\<open>destroy\<close> calls reject, a run of \<^verbatim>\<open>enforceMaxPhotos\<close> of \<^verbatim>\<open>server.js\<close>
  whose query answers \<open>extra\<close> ends without an error, has called \<^verbatim>\<open>destroy\<close> once for
  each row of \<open>extra\<close> and has deleted every row of \<open>extra\<close>; a rejected call only leaves
  its object in Cloudinary.
\<close>

lemma enforceMaxPhotos_Inr:
  assumes "select_extra max_photos scan = Inr extra"
  shows "\<exists>w'. enforceMaxPhotos max_photos fails scan w = Inr w' \<and>
           photos w' = filter (\<lambda>r. photo_id r \<notin> set (map photo_id extra)) (photos w) \<and>
           destroy_calls w' = destroy_calls w @ map public_id extra \<and>
           blobs w' = filter (\<lambda>b. b \<notin> set (map public_id extra) \<or> fails b) (blobs w) \<and>
           sseClients w' = sseClients w \<and> written w' = written w"
proof (cases "extra = []")
  case True
  with assms show ?thesis by (simp add: enforceMaxPhotos_def)
next
  case False
  with assms show ?thesis
    using fold_destroy_catch [of fails "map public_id extra" w]
    by (simp add: enforceMaxPhotos_def Let_def)
qed

text \<open>
  The SQLite variant does the same as long as the \<^verbatim>\<open>DELETE\<close> holds no more variables
  than SQLite takes.
\<close>

lemma enforceMaxPhotos_sqlite_few:
  assumes "select_extra_sqlite max_photos scan = Inr extra"
    "length extra \<le> sqlite_max_variables"
  shows "\<exists>w'. enforceMaxPhotos_sqlite max_photos fails scan w = (w', None) \<and>
           photos w' = filter (\<lambda>r. photo_id r \<notin> set (map photo_id extra)) (photos w) \<and>
           destroy_calls w' = destroy_calls w @ map public_id extra \<and>
           blobs w' = filter (\<lambda>b. b \<notin> set (map public_id extra) \<or> fails b) (blobs w) \<and>
           sseClients w' = sseClients w \<and> written w' = written w"
proof (cases "extra = []")
  case True
  with assms show ?thesis by (simp add: enforceMaxPhotos_sqlite_def)
next
  case False
  with assms show ?thesis
    using fold_destroy_catch [of fails "map public_id extra" w]
    by (simp add: enforceMaxPhotos_sqlite_def Let_def)
qed

text \<open>With more, the run calls \<^verbatim>\<open>destroy\<close> for every row and deletes none.\<close>

lemma enforceMaxPhotos_sqlite_many:
  assumes "select_extra_sqlite max_photos scan = Inr extra"
    "sqlite_max_variables < length extra"
  shows "\<exists>w'. enforceMaxPhotos_sqlite max_photos fails scan w = (w', Some Too_many_variables) \<and>
           photos w' = photos w \<and>
           destroy_calls w' = destroy_calls w @ map public_id extra \<and>
           blobs w' = filter (\<lambda>b. b \<notin> set (map public_id extra) \<or> fails b) (blobs w)"
proof -
  from assms(2) have "extra \<noteq> []" by auto
  with assms show ?thesis
    using fold_destroy_catch [of fails "map public_id extra" w]
    by (simp add: enforceMaxPhotos_sqlite_def Let_def)
qed

lemma sqlite_limit_million:
  "length xs \<le> 1000000 \<Longrightarrow> sqlite_limit (Num 1000000) xs = Inr xs"
  by (simp add: sqlite_limit_def sqlite_integer_def bigint_max_def)

lemma select_extra_sqlite_nat:
  assumes "int m < bigint_max" "length scan \<le> m + 1000000"
  shows "select_extra_sqlite (Num (int m)) scan = Inr (drop m (order_by_desc sqlite_key scan))"
  using assms
  by (simp add: select_extra_sqlite_def sqlite_offset_nat sqlite_limit_million
      length_order_by_desc)

lemma select_extra_sqlite_wall:
  assumes "int m < bigint_max" "n \<le> m + 1000000"
  shows "select_extra_sqlite (Num (int m)) (wall n) = Inr (drop m (wall n))"
  using select_extra_sqlite_nat [of m "wall n"] assms
  by (simp add: wall_sorted length_wall)

lemma MAX_PHOTOS_unset: "MAX_PHOTOS None = Num 10000"
  by (simp add: MAX_PHOTOS_def or_default_def parse_defs)

text \<open>
  C3, at a run of the SQLite variant with \<^verbatim>\<open>MAX_PHOTOS\<close> unset over a catalog of 42767
  photos. The query answers the 32767 rows beyond the newest 10000, and the run calls
  \<^verbatim>\<open>destroy\<close> for each of them, none of which fails. The \<^verbatim>\<open>DELETE\<close>, with one variable for
  each row, holds more variables than SQLite takes: it fails, nothing catches the error,
  and no row is deleted.
\<close>

theorem C3_sqlite_too_many_variables:
  "MAX_PHOTOS None = Num 10000 \<and>
   distinct (map photo_id (wall 42767)) \<and>
   select_extra_sqlite (Num 10000) (wall 42767) = Inr (drop 10000 (wall 42767)) \<and>
   length (drop 10000 (wall 42767)) = 32767 \<and>
   snd (enforceMaxPhotos_sqlite (Num 10000) no_failure (wall 42767)
          (empty_world\<lparr>photos := wall 42767, blobs := map public_id (wall 42767)\<rparr>)) =
     Some Too_many_variables \<and>
   photos (fst (enforceMaxPhotos_sqlite (Num 10000) no_failure (wall 42767)
          (empty_world\<lparr>photos := wall 42767, blobs := map public_id (wall 42767)\<rparr>))) =
     wall 42767 \<and>
   destroy_calls (fst (enforceMaxPhotos_sqlite (Num 10000) no_failure (wall 42767)
          (empty_world\<lparr>photos := wall 42767, blobs := map public_id (wall 42767)\<rparr>))) =
     map public_id (drop 10000 (wall 42767))"
proof -
  let ?w = "empty_world\<lparr>photos := wall 42767, blobs := map public_id (wall 42767)\<rparr>"
  have s: "select_extra_sqlite (Num 10000) (wall 42767) = Inr (drop 10000 (wall 42767))"
    using select_extra_sqlite_wall [of 10000 42767] by (simp add: bigint_max_def)
  have l: "length (drop 10000 (wall 42767)) = 32767" by (simp add: length_wall)
  then have "sqlite_max_variables < length (drop 10000 (wall 42767))"
    by (simp add: sqlite_max_variables_def)
  from enforceMaxPhotos_sqlite_many [OF s this, of no_failure ?w]
  obtain w' where
    "enforceMaxPhotos_sqlite (Num 10000) no_failure (wall 42767) ?w = (w', Some Too_many_variables)"
    "photos w' = photos ?w"
    "destroy_calls w' = destroy_calls ?w @ map public_id (drop 10000 (wall 42767))"
    by blast
  then have "snd (enforceMaxPhotos_sqlite (Num 10000) no_failure (wall 42767) ?w) =
      Some Too_many_variables"
    and "photos (fst (enforceMaxPhotos_sqlite (Num 10000) no_failure (wall 42767) ?w)) = wall 42767"
    and "destroy_calls (fst (enforceMaxPhotos_sqlite (Num 10000) no_failure (wall 42767) ?w)) =
      map public_id (drop 10000 (wall 42767))"
    by (simp_all add: empty_world_def)
  with MAX_PHOTOS_unset wall_ids s l show ?thesis by (intro conjI)
qed

subsection \<open>Sequential uploads\<close>

text \<open>Deleting the rows beyond the offset by their identifiers leaves the rows before it.\<close>

lemma delete_beyond:
  assumes "distinct (map photo_id T)" "mset ord = mset T"
  shows "set (filter (\<lambda>r. photo_id r \<notin> set (map photo_id (drop m ord))) T) = set (take m ord)"
    and "length (filter (\<lambda>r. photo_id r \<notin> set (map photo_id (drop m ord))) T) =
           min m (length T)"
proof -
  let ?P = "\<lambda>r. photo_id r \<notin> set (map photo_id (drop m ord))"
  have "mset (map photo_id ord) = mset (map photo_id T)" using assms(2) by simp
  then have d: "distinct (map photo_id ord)"
    using assms(1) by (metis mset_eq_imp_distinct_iff)
  then have "distinct (map photo_id (take m ord) @ map photo_id (drop m ord))"
    by (simp flip: map_append)
  then have disj: "set (map photo_id (take m ord)) \<inter> set (map photo_id (drop m ord)) = {}"
    by simp
  have "filter ?P (take m ord) = take m ord"
    using disj by (auto simp: filter_id_conv)
  moreover have "filter ?P (drop m ord) = []"
    by (auto simp: filter_empty_conv)
  ultimately have f: "filter ?P ord = take m ord"
    by (metis append_take_drop_id filter_append append_Nil2)
  have "mset (filter ?P T) = mset (filter ?P ord)"
    using assms(2) by simp
  then have m: "mset (filter ?P T) = mset (take m ord)" by (simp only: f)
  from m show "set (filter ?P T) = set (take m ord)" by (rule mset_eq_setD)
  from m have "length (filter ?P T) = length (take m ord)" by (rule mset_eq_length)
  also have "length ord = length T" using assms(2) by (rule mset_eq_length)
  then have "length (take m ord) = min m (length T)" by (simp add: min.commute)
  finally show "length (filter ?P T) = min m (length T)" .
qed

lemma POST_upload_accepted:
  assumes "accepted req" "new_id req \<notin> set (map photo_id (photos w))"
  shows "\<exists>resp w1. POST_upload req w = (resp, w1, True) \<and> photos w1 = photos w @ [uploaded req]"
proof -
  from assms(1) obtain pid u where c: "cloud req = Inr (pid, u)" and f: "req_file req"
    by (auto simp: accepted_def split: sum.splits)
  have "photo_id (new_row req pid u) = new_id req" by (simp add: new_row_def)
  with assms(2) c f show ?thesis
    by (simp add: POST_upload_def Let_def insert_photo_def uploaded_def photos_sseSend)
qed

lemma enforce_detached_photos:
  assumes "int m \<le> bigint_max"
  shows "photos (enforce_detached (Num (int m)) fails scan w) =
           filter (\<lambda>r. photo_id r \<notin> set (map photo_id (drop m (order_by_desc created_at scan))))
             (photos w)"
proof -
  have "select_extra (Num (int m)) scan = Inr (drop m (order_by_desc created_at scan))"
    using assms by (simp add: select_extra_def pg_offset_nat)
  from enforceMaxPhotos_Inr [OF this, of fails w] show ?thesis
    by (auto simp: enforce_detached_def)
qed

lemma photo_id_uploaded: "accepted req \<Longrightarrow> photo_id (uploaded req) = new_id req"
  by (auto simp: accepted_def uploaded_def new_row_def split: sum.splits)

lemma upload_run_step:
  assumes mp: "int m \<le> bigint_max"
    and inv: "holds_newest m H (photos w)"
    and acc: "accepted req"
    and fresh: "new_id req \<notin> set (map photo_id H)"
    and ans: "mset scan = mset (photos (fst (snd (POST_upload req w))))"
  shows "holds_newest m (H @ [uploaded req])
           (photos (snd (upload_run (Num (int m)) (req, fails, scan) w)))"
proof -
  let ?p = "uploaded req"
  let ?T = "photos w @ [?p]"
  let ?ord = "order_by_desc created_at scan"
  let ?cat = "filter (\<lambda>r. photo_id r \<notin> set (map photo_id (drop m ?ord))) ?T"
  from inv have I1: "distinct (map photo_id H)" and I2: "distinct (map photo_id (photos w))"
    and I3: "set (photos w) \<subseteq> set H" and I4: "length (photos w) = min (length H) m"
    and I5: "\<forall>r\<in>set (photos w). \<forall>e\<in>set H - set (photos w). created_at e \<le> created_at r"
    by (simp_all add: holds_newest_def)
  have idp: "photo_id ?p = new_id req" using acc by (rule photo_id_uploaded)
  have fresh_w: "new_id req \<notin> set (map photo_id (photos w))"
    using fresh I3 by auto
  from POST_upload_accepted [OF acc fresh_w]
  obtain resp w1 where post: "POST_upload req w = (resp, w1, True)"
    and w1: "photos w1 = ?T" by blast
  have cat: "photos (snd (upload_run (Num (int m)) (req, fails, scan) w)) = ?cat"
    using post w1 mp by (simp add: upload_run_def enforce_detached_photos)
  have "mset scan = mset ?T" using ans post w1 by simp
  then have mset: "mset ?ord = mset ?T" by (simp add: mset_order_by_desc)
  have sorted: "sorted_wrt (\<lambda>a b. created_at b \<le> created_at a) ?ord"
    by (rule sorted_order_by_desc)
  have dT: "distinct (map photo_id ?T)" using I2 fresh_w idp by simp
  have set_ord: "set ?ord = set ?T" using mset by (rule mset_eq_setD)
  have len_ord: "length ?ord = length ?T" using mset by (rule mset_eq_length)
  have d_ord: "distinct ?ord"
    using dT mset by (metis distinct_map mset_eq_imp_distinct_iff)
  note kept = delete_beyond [OF dT mset, of m]
  have c1: "distinct (map photo_id (H @ [?p]))" using I1 fresh idp by simp
  have c2: "distinct (map photo_id ?cat)" using dT by (rule distinct_map_filter)
  have c3: "set ?cat \<subseteq> set (H @ [?p])"
    using I3 by auto
  have c4: "length ?cat = min (length (H @ [?p])) m"
    using kept(2) I4 by simp
  have c5: "created_at e \<le> created_at r"
    if r: "r \<in> set ?cat" and e: "e \<in> set (H @ [?p]) - set ?cat" for r e
  proof -
    from r have r_take: "r \<in> set (take m ?ord)" by (simp only: kept(1))
    show ?thesis
    proof (cases "e \<in> set ?ord")
      case True
      with e have "e \<notin> set (take m ?ord)" by (simp only: kept(1)) simp
      with True have "e \<in> set (drop m ?ord)"
        by (metis Un_iff append_take_drop_id set_append)
      with sorted r_take show ?thesis by (rule beyond_not_newer)
    next
      case False
      with e set_ord have eH: "e \<in> set H - set (photos w)" by auto
      show ?thesis
      proof (cases "r \<in> set (photos w)")
        case True
        with I5 eH show ?thesis by blast
      next
        case False
        from r_take have "r \<in> set ?ord" by (rule in_set_takeD)
        with False set_ord have rp: "r = ?p" by simp
        have "set (photos w) \<subset> set H" using eH I3 by auto
        then have "card (set (photos w)) < card (set H)"
          by (simp add: psubset_card_mono)
        moreover have "distinct (photos w)" "distinct H"
          using I1 I2 by (simp_all add: distinct_map)
        ultimately have "length (photos w) < length H"
          by (simp add: distinct_card)
        with I4 have full: "length (photos w) = m" by simp
        then have "length ?ord = Suc m" using len_ord by simp
        then have "drop m ?ord \<noteq> []" by simp
        then obtain d where d: "d \<in> set (drop m ?ord)"
          by (cases "drop m ?ord") auto
        have "set (take m ?ord) \<inter> set (drop m ?ord) = {}"
          using d_ord by (metis append_take_drop_id distinct_append)
        with d r_take have "d \<noteq> r" by auto
        moreover from d have "d \<in> set ?ord" by (rule in_set_dropD)
        ultimately have "d \<in> set (photos w)" using set_ord rp by simp
        with I5 eH have "created_at e \<le> created_at d" by blast
        also have "created_at d \<le> created_at r"
          using sorted r_take d by (rule beyond_not_newer)
        finally show ?thesis .
      qed
    qed
  qed
  show ?thesis
    unfolding holds_newest_def cat
    using c1 c2 c3 c4 c5 by (intro conjI ballI) blast+
qed

lemma uploads_invariant:
  assumes "int m \<le> bigint_max"
    and "holds_newest m H (photos w)"
    and "\<forall>x\<in>set xs. accepted (fst x)"
    and "distinct (map photo_id H @ map (\<lambda>x. new_id (fst x)) xs)"
    and "answers (Num (int m)) xs w"
  shows "holds_newest m (H @ map (\<lambda>x. uploaded (fst x)) xs) (photos (uploads (Num (int m)) xs w))"
  using assms(2-)
proof (induction xs arbitrary: w H)
  case Nil
  then show ?case by simp
next
  case (Cons x xs)
  obtain req fails scan where x: "x = (req, fails, scan)" by (cases x)
  have acc: "accepted req" using Cons.prems(2) x by simp
  have fresh: "new_id req \<notin> set (map photo_id H)" using Cons.prems(3) x by auto
  have ans: "mset scan = mset (photos (fst (snd (POST_upload req w))))"
    using Cons.prems(4) x by simp
  let ?w = "snd (upload_run (Num (int m)) x w)"
  have step: "holds_newest m (H @ [uploaded req]) (photos ?w)"
    unfolding x using assms(1) Cons.prems(1) acc fresh ans by (rule upload_run_step)
  have "distinct (map photo_id (H @ [uploaded req]) @ map (\<lambda>x. new_id (fst x)) xs)"
    using Cons.prems(3) x acc by (auto simp: photo_id_uploaded)
  moreover have "\<forall>x\<in>set xs. accepted (fst x)" using Cons.prems(2) by simp
  moreover have "answers (Num (int m)) xs ?w" using Cons.prems(4) by simp
  ultimately have "holds_newest m ((H @ [uploaded req]) @ map (\<lambda>x. uploaded (fst x)) xs)
      (photos (uploads (Num (int m)) xs ?w))"
    using Cons.IH [OF step] by blast
  then show ?case by (simp add: x)
qed

text \<open>
  In \<^verbatim>\<open>server.js\<close>, after any sequence of accepted uploads under distinct identifiers,
  each followed by its enforcement run, the catalog holds the newest: whatever order the
  engine gives to equal time stamps, whatever \<^verbatim>\<open>destroy\<close> calls fail.
\<close>

lemma uploads_hold_newest:
  assumes "max_photos = Num (int m)" "int m \<le> bigint_max"
    and "\<forall>x\<in>set xs. accepted (fst x)"
    and "distinct (map (\<lambda>x. new_id (fst x)) xs)"
    and "answers max_photos xs empty_world"
  shows "holds_newest m (map (\<lambda>x. uploaded (fst x)) xs)
           (photos (uploads max_photos xs empty_world))"
proof -
  have "holds_newest m [] (photos empty_world)"
    by (simp add: holds_newest_def empty_world_def)
  from uploads_invariant [OF assms(2) this assms(3), of] assms(1,4,5)
  show ?thesis by simp
qed

lemmas run_defs =
  POST_upload_def POST_upload_sqlite_def shot_def insert_photo_def new_row_def sseSend_def
  upload_run_def upload_run_sqlite_def enforce_detached_def enforceMaxPhotos_def
  enforceMaxPhotos_sqlite_def select_extra_def select_extra_sqlite_def pg_offset_def
  pg_count_def sqlite_offset_def sqlite_limit_def sqlite_integer_def bigint_max_def
  sqlite_max_variables_def destroy_catch_def destroy_def no_failure_def empty_world_def
  row_def order_by_desc_def sqlite_key_def datetime_def Let_def

lemma MAX_PHOTOS_2: "MAX_PHOTOS (Some (ascii ''2'')) = Num 2"
  by (simp add: MAX_PHOTOS_def or_default_def parse_defs)

text \<open>
  The scenario of the specification on \<^verbatim>\<open>server.js\<close>: \<^verbatim>\<open>MAX_PHOTOS=2\<close>, uploads \<open>a\<close>,
  \<open>b\<close>, \<open>c\<close> at the times 1, 2, 3, the engine meeting the rows in the order of insertion.
  The catalog ends as \<open>b\<close>, \<open>c\<close>, and \<^verbatim>\<open>destroy\<close> was called for \<open>a\<close>.
\<close>

lemma scenario_postgres:
  "answers (Num 2)
     [(shot ''a'' 1, no_failure, [row ''a'' 1]),
      (shot ''b'' 2, no_failure, [row ''a'' 1, row ''b'' 2]),
      (shot ''c'' 3, no_failure, [row ''a'' 1, row ''b'' 2, row ''c'' 3])] empty_world \<and>
   uploads (Num 2)
     [(shot ''a'' 1, no_failure, [row ''a'' 1]),
      (shot ''b'' 2, no_failure, [row ''a'' 1, row ''b'' 2]),
      (shot ''c'' 3, no_failure, [row ''a'' 1, row ''b'' 2, row ''c'' 3])] empty_world =
   \<lparr>photos = [row ''b'' 2, row ''c'' 3],
    blobs = [''memorial_wall/c'', ''memorial_wall/b''],
    destroy_calls = [''memorial_wall/a''], sseClients = [], written = []\<rparr>"
  by (simp add: run_defs)

lemma scenario_postgres_newest:
  "holds_newest 2 [row ''a'' 1, row ''b'' 2, row ''c'' 3] [row ''b'' 2, row ''c'' 3]"
proof -
  let ?xs = "[(shot ''a'' 1, no_failure, [row ''a'' 1]),
      (shot ''b'' 2, no_failure, [row ''a'' 1, row ''b'' 2]),
      (shot ''c'' 3, no_failure, [row ''a'' 1, row ''b'' 2, row ''c'' 3])]"
  have "\<forall>x\<in>set ?xs. accepted (fst x)" "distinct (map (\<lambda>x. new_id (fst x)) ?xs)"
    by (simp_all add: accepted_def shot_def)
  moreover have "Num 2 = Num (int 2)" "int 2 \<le> bigint_max"
    by (simp_all add: bigint_max_def)
  moreover have "answers (Num 2) ?xs empty_world"
    using scenario_postgres by simp
  ultimately have "holds_newest 2 (map (\<lambda>x. uploaded (fst x)) ?xs)
      (photos (uploads (Num 2) ?xs empty_world))"
    by (intro uploads_hold_newest)
  moreover have "map (\<lambda>x. uploaded (fst x)) ?xs = [row ''a'' 1, row ''b'' 2, row ''c'' 3]"
    by (simp add: uploaded_def shot_def new_row_def row_def)
  moreover have "photos (uploads (Num 2) ?xs empty_world) = [row ''b'' 2, row ''c'' 3]"
    using scenario_postgres by simp
  ultimately show ?thesis by simp
qed

text \<open>
  C2, at three uploads within one second to the SQLite variant with \<^verbatim>\<open>MAX_PHOTOS=2\<close>:
  \<open>a\<close> at .000, \<open>b\<close> at .400, \<open>c\<close> at .800. The three rows have one
  \<^verbatim>\<open>datetime(createdAt)\<close>, and the query of each run, meeting the rows in the order of
  insertion, answers them in that order; then the run after the third upload calls
  \<^verbatim>\<open>destroy\<close> for \<open>c\<close> and deletes the row of \<open>c\<close>, the newest, and the catalog keeps \<open>a\<close>
  and \<open>b\<close>.
\<close>

theorem C2_sqlite_same_second:
  "MAX_PHOTOS (Some (ascii ''2'')) = Num 2 \<and>
   answers_sqlite (Num 2)
     [(shot ''a'' 1700000000000, no_failure, [row ''a'' 1700000000000]),
      (shot ''b'' 1700000000400, no_failure, [row ''a'' 1700000000000, row ''b'' 1700000000400]),
      (shot ''c'' 1700000000800, no_failure,
         [row ''a'' 1700000000000, row ''b'' 1700000000400, row ''c'' 1700000000800])]
     empty_world \<and>
   uploads_sqlite (Num 2)
     [(shot ''a'' 1700000000000, no_failure, [row ''a'' 1700000000000]),
      (shot ''b'' 1700000000400, no_failure, [row ''a'' 1700000000000, row ''b'' 1700000000400]),
      (shot ''c'' 1700000000800, no_failure,
         [row ''a'' 1700000000000, row ''b'' 1700000000400, row ''c'' 1700000000800])]
     empty_world =
   \<lparr>photos = [row ''a'' 1700000000000, row ''b'' 1700000000400],
    blobs = [''memorial_wall/b'', ''memorial_wall/a''],
    destroy_calls = [''memorial_wall/c''], sseClients = [], written = []\<rparr> \<and>
   row ''c'' 1700000000800 \<notin> set [row ''a'' 1700000000000, row ''b'' 1700000000400] \<and>
   created_at (row ''a'' 1700000000000) < created_at (row ''c'' 1700000000800)"
proof (intro conjI)
  show "MAX_PHOTOS (Some (ascii ''2'')) = Num 2" by (rule MAX_PHOTOS_2)
  show "answers_sqlite (Num 2)
     [(shot ''a'' 1700000000000, no_failure, [row ''a'' 1700000000000]),
      (shot ''b'' 1700000000400, no_failure, [row ''a'' 1700000000000, row ''b'' 1700000000400]),
      (shot ''c'' 1700000000800, no_failure,
         [row ''a'' 1700000000000, row ''b'' 1700000000400, row ''c'' 1700000000800])]
     empty_world"
    by (simp add: run_defs)
  show "uploads_sqlite (Num 2)
     [(shot ''a'' 1700000000000, no_failure, [row ''a'' 1700000000000]),
      (shot ''b'' 1700000000400, no_failure, [row ''a'' 1700000000000, row ''b'' 1700000000400]),
      (shot ''c'' 1700000000800, no_failure,
         [row ''a'' 1700000000000, row ''b'' 1700000000400, row ''c'' 1700000000800])]
     empty_world =
   \<lparr>photos = [row ''a'' 1700000000000, row ''b'' 1700000000400],
    blobs = [''memorial_wall/b'', ''memorial_wall/a''],
    destroy_calls = [''memorial_wall/c''], sseClients = [], written = []\<rparr>"
    by (simp add: run_defs)
  show "row ''c'' 1700000000800 \<notin> set [row ''a'' 1700000000000, row ''b'' 1700000000400]"
    by (simp add: row_def)
  show "created_at (row ''a'' 1700000000000) < created_at (row ''c'' 1700000000800)"
    by (simp add: row_def)
qed

subsection \<open>The two variants\<close>

lemma POST_upload_sqlite_fresh:
  assumes "new_id req \<notin> set (map photo_id (photos w)) \<or> \<not> accepted req"
  shows "POST_upload_sqlite req w = POST_upload req w"
proof (cases "accepted req")
  case True
  then obtain pid u where c: "cloud req = Inr (pid, u)" and f: "req_file req"
    by (auto simp: accepted_def split: sum.splits)
  have "photo_id (new_row req pid u) = new_id req" by (simp add: new_row_def)
  with assms True c f show ?thesis
    by (simp add: POST_upload_def POST_upload_sqlite_def Let_def insert_photo_def)
next
  case False
  then show ?thesis
    by (auto simp: POST_upload_def POST_upload_sqlite_def accepted_def split: sum.splits)
qed

lemma enforce_same:
  assumes "mset scan = mset (photos w)" "mset scan' = mset (photos w)"
    "distinct (map sqlite_key (photos w))"
    "int m < bigint_max" "length (photos w) \<le> m + sqlite_max_variables"
  shows "enforceMaxPhotos (Num (int m)) fails scan w =
           Inr (fst (enforceMaxPhotos_sqlite (Num (int m)) fails scan' w)) \<and>
         snd (enforceMaxPhotos_sqlite (Num (int m)) fails scan' w) = None"
proof -
  let ?extra = "drop m (order_by_desc created_at scan)"
  have m: "mset scan' = mset scan" using assms(1,2) by simp
  have d: "distinct (map sqlite_key scan)"
    using assms(1) [symmetric] assms(3) by (rule distinct_keys_mset)
  have o: "order_by_desc sqlite_key scan' = order_by_desc created_at scan"
    using m d by (rule order_by_desc_sqlite_key)
  have "length scan' = length (photos w)" using assms(2) by (rule mset_eq_length)
  then have len: "length scan' \<le> m + 1000000"
    using assms(5) by (simp add: sqlite_max_variables_def)
  have "length scan = length (photos w)" using assms(1) by (rule mset_eq_length)
  then have few: "length ?extra \<le> sqlite_max_variables"
    using assms(5) by (simp add: length_order_by_desc)
  have p: "select_extra (Num (int m)) scan = Inr ?extra"
    using assms(4) by (simp add: select_extra_def pg_offset_nat)
  have "select_extra_sqlite (Num (int m)) scan' = Inr (drop m (order_by_desc sqlite_key scan'))"
    using assms(4) len by (rule select_extra_sqlite_nat)
  then have l: "select_extra_sqlite (Num (int m)) scan' = Inr ?extra"
    by (simp only: o)
  from enforceMaxPhotos_Inr [OF p, of fails w] enforceMaxPhotos_sqlite_few [OF l few, of fails w]
  show ?thesis by auto
qed

text \<open>
  C10, as amended: the two variants answer alike in these cases.
  \<^item> \<^verbatim>\<open>DELETE /photos/:id\<close>: for every state, key and identifier the same response and
    the same resulting state (table, objects, \<^verbatim>\<open>destroy\<close> calls, event streams).
  \<^item> \<^verbatim>\<open>POST /upload\<close>, when the request has no file, Cloudinary refuses the file, or the
    identifier drawn is not in the table: the same response, state and event.
  \<^item> \<^verbatim>\<open>GET /photos\<close>, when no two rows of the table were created within the same second
    and the limit is a number that is not negative: the same response, whatever the
    order in which each engine meets the rows.
  \<^item> An enforcement run, when no two rows of the table were created within the same
    second, \<^verbatim>\<open>MAX_PHOTOS\<close> is a number from 0 to below \<open>2^53\<close> and at most 32766 rows
    lie beyond it: the run of \<^verbatim>\<open>server.js\<close> resolves, that of the SQLite variant raises no
    error, and both leave the same state.
\<close>

theorem C10_variants_agree_when:
  "DELETE_photo_sqlite k fails key i w = DELETE_photo k fails key i w \<and>
   (new_id req \<notin> set (map photo_id (photos w)) \<or> \<not> accepted req \<longrightarrow>
      POST_upload_sqlite req w = POST_upload req w) \<and>
   (mset scan = mset (photos w) \<and> mset scan' = mset (photos w) \<and>
    distinct (map sqlite_key (photos w)) \<and> photos_limit q = Num v \<and> 0 \<le> v \<longrightarrow>
      GET_photos_sqlite q scan' = GET_photos q scan) \<and>
   (mset scan = mset (photos w) \<and> mset scan' = mset (photos w) \<and>
    distinct (map sqlite_key (photos w)) \<and> max_photos = Num (int m) \<and>
    m < 2 ^ 53 \<and> length (photos w) \<le> m + sqlite_max_variables \<longrightarrow>
      enforceMaxPhotos max_photos fails scan w =
        Inr (fst (enforceMaxPhotos_sqlite max_photos fails scan' w)) \<and>
      snd (enforceMaxPhotos_sqlite max_photos fails scan' w) = None)"
proof (intro conjI impI)
  show "DELETE_photo_sqlite k fails key i w = DELETE_photo k fails key i w"
    by (simp only: DELETE_photo_sqlite_eq)
  show "POST_upload_sqlite req w = POST_upload req w"
    if "new_id req \<notin> set (map photo_id (photos w)) \<or> \<not> accepted req"
    using that by (rule POST_upload_sqlite_fresh)
  show "GET_photos_sqlite q scan' = GET_photos q scan"
    if h: "mset scan = mset (photos w) \<and> mset scan' = mset (photos w) \<and>
      distinct (map sqlite_key (photos w)) \<and> photos_limit q = Num v \<and> 0 \<le> v"
  proof -
    from h have "mset scan' = mset scan" by simp
    moreover from h have "distinct (map sqlite_key scan)"
      using distinct_keys_mset [of "photos w" scan sqlite_key] by simp
    ultimately show ?thesis using h by (auto intro: GET_photos_same)
  qed
  assume h: "mset scan = mset (photos w) \<and> mset scan' = mset (photos w) \<and>
    distinct (map sqlite_key (photos w)) \<and> max_photos = Num (int m) \<and>
    m < 2 ^ 53 \<and> length (photos w) \<le> m + sqlite_max_variables"
  then have e: "enforceMaxPhotos (Num (int m)) fails scan w =
           Inr (fst (enforceMaxPhotos_sqlite (Num (int m)) fails scan' w)) \<and>
         snd (enforceMaxPhotos_sqlite (Num (int m)) fails scan' w) = None"
    by (intro enforce_same) (simp_all add: bigint_max_def)
  from h have mp: "max_photos = Num (int m)" by simp
  show "enforceMaxPhotos max_photos fails scan w =
        Inr (fst (enforceMaxPhotos_sqlite max_photos fails scan' w))"
    using e by (simp only: mp)
  show "snd (enforceMaxPhotos_sqlite max_photos fails scan' w) = None"
    using e by (simp only: mp)
qed

text \<open>
  C10 as stated does not hold: the two variants do not send the same response to every
  request. When the \<^verbatim>\<open>INSERT\<close> of an upload fails, here because the identifier is already
  in the table, \<^verbatim>\<open>server.js\<close> answers with the message \<^verbatim>\<open>Upload failed\<close> and the SQLite
  variant with \<^verbatim>\<open>DB insert error\<close>. And a limit without a digit, \<^verbatim>\<open>limit=abc\<close>, is refused
  by both engines, each with an error of its own, which the response carries.
\<close>

theorem C10_counterexample:
  "fst (POST_upload (shot ''a'' 2000) (empty_world\<lparr>photos := [row ''a'' 1000]\<rparr>)) =
     \<lparr>status = 500, body = Failed ''Upload failed'' (Db Duplicate_key)\<rparr> \<and>
   fst (POST_upload_sqlite (shot ''a'' 2000) (empty_world\<lparr>photos := [row ''a'' 1000]\<rparr>)) =
     \<lparr>status = 500, body = Failed ''DB insert error'' (Db Duplicate_key)\<rparr> \<and>
   fst (POST_upload (shot ''a'' 2000) (empty_world\<lparr>photos := [row ''a'' 1000]\<rparr>)) \<noteq>
     fst (POST_upload_sqlite (shot ''a'' 2000) (empty_world\<lparr>photos := [row ''a'' 1000]\<rparr>)) \<and>
   GET_photos (Some (ascii ''abc'')) [row ''a'' 1000] =
     \<lparr>status = 500, body = Failed ''DB error'' (Db Invalid_syntax)\<rparr> \<and>
   GET_photos_sqlite (Some (ascii ''abc'')) [row ''a'' 1000] =
     \<lparr>status = 500, body = Failed ''DB error'' (Db Datatype_mismatch)\<rparr> \<and>
   GET_photos (Some (ascii ''abc'')) [row ''a'' 1000] \<noteq>
     GET_photos_sqlite (Some (ascii ''abc'')) [row ''a'' 1000]"
proof -
  have p: "fst (POST_upload (shot ''a'' 2000) (empty_world\<lparr>photos := [row ''a'' 1000]\<rparr>)) =
     \<lparr>status = 500, body = Failed ''Upload failed'' (Db Duplicate_key)\<rparr>"
    by (simp add: run_defs)
  have l: "fst (POST_upload_sqlite (shot ''a'' 2000) (empty_world\<lparr>photos := [row ''a'' 1000]\<rparr>)) =
     \<lparr>status = 500, body = Failed ''DB insert error'' (Db Duplicate_key)\<rparr>"
    by (simp add: run_defs)
  have g: "GET_photos (Some (ascii ''abc'')) [row ''a'' 1000] =
     \<lparr>status = 500, body = Failed ''DB error'' (Db Invalid_syntax)\<rparr>"
    by (simp add: listing_defs)
  have s: "GET_photos_sqlite (Some (ascii ''abc'')) [row ''a'' 1000] =
     \<lparr>status = 500, body = Failed ''DB error'' (Db Datatype_mismatch)\<rparr>"
    by (simp add: listing_defs)
  show ?thesis unfolding p l g s by simp
qed

theorem C10_witness:
  "DELETE_photo_sqlite ''12345'' no_failure (Some ''12345'') ''a''
       (empty_world\<lparr>photos := [row ''a'' 1000, row ''b'' 2000]\<rparr>) =
     DELETE_photo ''12345'' no_failure (Some ''12345'') ''a''
       (empty_world\<lparr>photos := [row ''a'' 1000, row ''b'' 2000]\<rparr>) \<and>
   (new_id (shot ''c'' 3000) \<notin>
      set (map photo_id (photos (empty_world\<lparr>photos := [row ''a'' 1000, row ''b'' 2000]\<rparr>)))) \<and>
   POST_upload_sqlite (shot ''c'' 3000) (empty_world\<lparr>photos := [row ''a'' 1000, row ''b'' 2000]\<rparr>) =
     POST_upload (shot ''c'' 3000) (empty_world\<lparr>photos := [row ''a'' 1000, row ''b'' 2000]\<rparr>) \<and>
   mset [row ''a'' 1000, row ''b'' 2000] =
     mset (photos (empty_world\<lparr>photos := [row ''a'' 1000, row ''b'' 2000]\<rparr>)) \<and>
   mset [row ''b'' 2000, row ''a'' 1000] =
     mset (photos (empty_world\<lparr>photos := [row ''a'' 1000, row ''b'' 2000]\<rparr>)) \<and>
   distinct (map sqlite_key (photos (empty_world\<lparr>photos := [row ''a'' 1000, row ''b'' 2000]\<rparr>))) \<and>
   photos_limit (Some (ascii ''1'')) = Num 1 \<and>
   GET_photos_sqlite (Some (ascii ''1'')) [row ''b'' 2000, row ''a'' 1000] =
     GET_photos (Some (ascii ''1'')) [row ''a'' 1000, row ''b'' 2000] \<and>
   GET_photos (Some (ascii ''1'')) [row ''a'' 1000, row ''b'' 2000] =
     \<lparr>status = 200, body = Photos [to_json (row ''b'' 2000)]\<rparr> \<and>
   (1 :: nat) < 2 ^ 53 \<and>
   length (photos (empty_world\<lparr>photos := [row ''a'' 1000, row ''b'' 2000]\<rparr>)) \<le>
     1 + sqlite_max_variables \<and>
   enforceMaxPhotos (Num (int 1)) no_failure [row ''a'' 1000, row ''b'' 2000]
       (empty_world\<lparr>photos := [row ''a'' 1000, row ''b'' 2000]\<rparr>) =
     Inr (fst (enforceMaxPhotos_sqlite (Num (int 1)) no_failure [row ''b'' 2000, row ''a'' 1000]
       (empty_world\<lparr>photos := [row ''a'' 1000, row ''b'' 2000]\<rparr>))) \<and>
   snd (enforceMaxPhotos_sqlite (Num (int 1)) no_failure [row ''b'' 2000, row ''a'' 1000]
       (empty_world\<lparr>photos := [row ''a'' 1000, row ''b'' 2000]\<rparr>)) = None \<and>
   photos (fst (enforceMaxPhotos_sqlite (Num (int 1)) no_failure [row ''b'' 2000, row ''a'' 1000]
       (empty_world\<lparr>photos := [row ''a'' 1000, row ''b'' 2000]\<rparr>))) = [row ''b'' 2000]"
proof -
  let ?w = "empty_world\<lparr>photos := [row ''a'' 1000, row ''b'' 2000]\<rparr>"
  let ?s = "[row ''a'' 1000, row ''b'' 2000]" and ?s' = "[row ''b'' 2000, row ''a'' 1000]"
  have f: "new_id (shot ''c'' 3000) \<notin> set (map photo_id (photos ?w))"
    by (simp add: shot_def row_def)
  have m: "mset ?s = mset (photos ?w)" "mset ?s' = mset (photos ?w)"
    by simp_all
  have d: "distinct (map sqlite_key (photos ?w))"
    by (simp add: row_def sqlite_key_def datetime_def)
  have q: "photos_limit (Some (ascii ''1'')) = Num 1"
    by (simp add: photos_limit_def or_default_def parse_defs)
  have n: "(1 :: nat) < 2 ^ 53" "length (photos ?w) \<le> 1 + sqlite_max_variables"
    by (simp_all add: sqlite_max_variables_def)
  have g: "GET_photos (Some (ascii ''1'')) ?s =
     \<lparr>status = 200, body = Photos [to_json (row ''b'' 2000)]\<rparr>"
    by (simp add: listing_defs)
  have e: "photos (fst (enforceMaxPhotos_sqlite (Num (int 1)) no_failure ?s' ?w)) =
      [row ''b'' 2000]"
    by (simp add: run_defs)
  from C10_variants_agree_when [where k = "''12345''" and fails = no_failure
      and key = "Some ''12345''" and i = "''a''" and w = ?w and req = "shot ''c'' 3000"
      and scan = ?s and scan' = ?s' and q = "Some (ascii ''1'')" and v = 1
      and max_photos = "Num (int 1)" and m = 1] f m d q n
  have "DELETE_photo_sqlite ''12345'' no_failure (Some ''12345'') ''a'' ?w =
       DELETE_photo ''12345'' no_failure (Some ''12345'') ''a'' ?w"
    and "POST_upload_sqlite (shot ''c'' 3000) ?w = POST_upload (shot ''c'' 3000) ?w"
    and "GET_photos_sqlite (Some (ascii ''1'')) ?s' = GET_photos (Some (ascii ''1'')) ?s"
    and "enforceMaxPhotos (Num (int 1)) no_failure ?s ?w =
       Inr (fst (enforceMaxPhotos_sqlite (Num (int 1)) no_failure ?s' ?w))"
    and "snd (enforceMaxPhotos_sqlite (Num (int 1)) no_failure ?s' ?w) = None"
    by simp_all
  with f m d q g n e show ?thesis by (intro conjI)
qed

end
